theory Spec2Isabelle
  imports Main "HOL-Library.Sublist"
begin

section \<open>Go strings: the library calls made by \<open>pkg/tools/edit.go\<close>\<close>

text \<open>
  A Go string is a sequence of bytes; \<^typ>\<open>string\<close> is a list of 8-bit characters,
  so \<^const>\<open>length\<close> is Go's \<open>len\<close> and \<open>take\<close>/\<open>drop\<close> are Go's slices
  \<open>s[:i]\<close> and \<open>s[i:]\<close>.
\<close>

subsection \<open>\<open>unicode/utf8\<close>: rune boundaries\<close>

text \<open>
  The table \<open>first\<close> of package \<open>utf8\<close> together with \<open>acceptRanges\<close>: for a leading
  byte, the length of the encoding it announces and the range allowed for the second
  byte; \<open>None\<close> is the table's \<open>xx\<close> (a byte that cannot start an encoding).
\<close>

definition utf8_first :: "nat \<Rightarrow> (nat \<times> nat \<times> nat) option" where
  "utf8_first c =
     (if c < 0x80 then Some (1, 0x80, 0xBF)
      else if c < 0xC2 then None
      else if c < 0xE0 then Some (2, 0x80, 0xBF)
      else if c = 0xE0 then Some (3, 0xA0, 0xBF)
      else if c < 0xED then Some (3, 0x80, 0xBF)
      else if c = 0xED then Some (3, 0x80, 0x9F)
      else if c < 0xF0 then Some (3, 0x80, 0xBF)
      else if c = 0xF0 then Some (4, 0x90, 0xBF)
      else if c < 0xF4 then Some (4, 0x80, 0xBF)
      else if c = 0xF4 then Some (4, 0x80, 0x8F)
      else None)"

definition continuation :: "char \<Rightarrow> bool" where
  "continuation c = (0x80 \<le> (of_char c :: nat) \<and> (of_char c :: nat) \<le> 0xBF)"

text \<open>
  The number of bytes the loop of \<open>utf8.RuneCountInString\<close> (and
  \<open>utf8.DecodeRuneInString\<close>) consumes at the front of a non-empty string: the size of a
  well-formed encoding, and 1 for an ASCII byte, an invalid byte or a cut-off encoding.
\<close>

fun rune_width :: "string \<Rightarrow> nat" where
  "rune_width [] = 0"
| "rune_width (c # cs) =
     (if (of_char c :: nat) < 0x80 then 1
      else case utf8_first (of_char c) of
        None \<Rightarrow> 1
      | Some (sz, lo, hi) \<Rightarrow>
          if length (c # cs) < sz then 1
          else if (of_char (cs ! 0) :: nat) < lo \<or> hi < (of_char (cs ! 0) :: nat) then 1
          else if sz = 2 then 2
          else if \<not> continuation (cs ! 1) then 1
          else if sz = 3 then 3
          else if \<not> continuation (cs ! 2) then 1
          else 4)"

lemma rune_width_pos: "s \<noteq> [] \<Longrightarrow> 0 < rune_width s"
  by (cases s) (auto split: option.splits)

lemma utf8_first_size:
  "utf8_first c = Some (sz, lo, hi) \<Longrightarrow> \<not> c < 0x80 \<Longrightarrow> sz = 2 \<or> sz = 3 \<or> sz = 4"
  by (simp add: utf8_first_def split: if_splits)

lemma rune_width_le: "rune_width s \<le> length s"
proof (cases s)
  case Nil
  then show ?thesis by simp
next
  case (Cons c cs)
  show ?thesis
  proof (cases "(of_char c :: nat) < 0x80")
    case True
    with Cons show ?thesis by simp
  next
    case ascii: False
    show ?thesis
    proof (cases "utf8_first (of_char c)")
      case None
      with Cons show ?thesis by simp
    next
      case (Some t)
      obtain sz lo hi where t: "t = (sz, lo, hi)" by (cases t)
      from utf8_first_size [of "of_char c" sz lo hi] Some t ascii
      consider "sz = 2" | "sz = 3" | "sz = 4" by auto
      then show ?thesis
      proof cases
        case 1
        with Cons Some t ascii show ?thesis by (simp add: Suc_le_eq)
      next
        case 2
        with Cons Some t ascii show ?thesis by (simp add: Suc_le_eq)
      next
        case 3
        with Cons Some t ascii show ?thesis by (simp add: Suc_le_eq)
      qed
    qed
  qed
qed

function RuneCountInString :: "string \<Rightarrow> nat" where
  "RuneCountInString s =
     (if s = [] then 0 else Suc (RuneCountInString (drop (rune_width s) s)))"
  by pat_completeness auto
termination
  by (relation "measure length") (use rune_width_pos in \<open>auto simp: Suc_le_eq\<close>)

declare RuneCountInString.simps [simp del]

subsection \<open>\<open>strings.Index\<close>, \<open>Contains\<close>, \<open>Count\<close>, \<open>Replace\<close>\<close>

text \<open>
  \<open>strings.Index(s, substr)\<close>: the index of the first instance of \<open>substr\<close> in \<open>s\<close>,
  or \<open>-1\<close> if there is none.
\<close>

fun strings_Index :: "string \<Rightarrow> string \<Rightarrow> int" where
  "strings_Index [] substr = (if substr = [] then 0 else - 1)"
| "strings_Index (c # cs) substr =
     (if prefix substr (c # cs) then 0
      else let i = strings_Index cs substr in if i < 0 then - 1 else i + 1)"

definition strings_Contains :: "string \<Rightarrow> string \<Rightarrow> bool" where
  "strings_Contains s substr = (strings_Index s substr \<ge> 0)"

lemma strings_Index_range: "- 1 \<le> strings_Index s substr"
  by (induction s) (auto simp: Let_def)

lemma strings_Index_bound:
  "0 \<le> strings_Index s substr \<Longrightarrow> nat (strings_Index s substr) + length substr \<le> length s"
proof (induction s)
  case Nil
  then show ?case by (simp split: if_splits)
next
  case (Cons c cs)
  show ?case
  proof (cases "prefix substr (c # cs)")
    case True
    then show ?thesis using prefix_length_le [of substr "c # cs"] by simp
  next
    case False
    with Cons.prems have "0 \<le> strings_Index cs substr"
      by (simp add: Let_def split: if_splits)
    with Cons.IH False show ?thesis
      by (simp add: Let_def nat_add_distrib)
  qed
qed

text \<open>
  \<open>strings.Count(s, substr)\<close>: the number of non-overlapping instances of \<open>substr\<close> in
  \<open>s\<close>; for an empty \<open>substr\<close>, 1 + the number of runes of \<open>s\<close>. The library has a
  byte-counting branch for a one-byte \<open>substr\<close> and otherwise repeats \<open>Index\<close> on the
  rest of the string behind each instance found. That loop is only entered with
  \<open>len(substr) \<ge> 2\<close>; the test \<open>substr = []\<close> below is never true there and only makes
  the recursion well-founded for every argument.
\<close>

function count_loop :: "string \<Rightarrow> string \<Rightarrow> int \<Rightarrow> int" where
  "count_loop s substr n =
     (let i = strings_Index s substr in
      if i = - 1 \<or> substr = [] then n
      else count_loop (drop (nat i + length substr) s) substr (n + 1))"
  by pat_completeness auto
termination
proof (relation "measure (\<lambda>(s, substr, n). length s)", goal_cases)
  case 1
  show ?case by simp
next
  case (2 s substr n i)
  then have "0 \<le> strings_Index s substr"
    using strings_Index_range [of s substr] by simp
  from strings_Index_bound [OF this] 2 show ?case
    by (cases substr) auto
qed

declare count_loop.simps [simp del]

definition strings_Count :: "string \<Rightarrow> string \<Rightarrow> int" where
  "strings_Count s substr =
     (if length substr = 0 then int (RuneCountInString s) + 1
      else if length substr = 1 then int (count_list s (substr ! 0))
      else count_loop s substr 0)"

text \<open>
  \<open>strings.Replace(s, old, new, n)\<close>: a copy of \<open>s\<close> with the first \<open>n\<close>
  non-overlapping instances of \<open>old\<close> replaced by \<open>new\<close> (all of them if \<open>n < 0\<close>); an
  empty \<open>old\<close> matches at the beginning of the string and after each rune. The loop
  \<open>for i := 0; i < n; i++\<close> of the library runs on the rest of the string \<open>s[start:]\<close>;
  \<open>fresh\<close> is its test \<open>i = 0\<close>.
\<close>

fun replace_loop :: "string \<Rightarrow> string \<Rightarrow> string \<Rightarrow> bool \<Rightarrow> nat \<Rightarrow> string" where
  "replace_loop rest old new fresh 0 = rest"
| "replace_loop rest old new fresh (Suc k) =
     (let j = (if old = [] then (if fresh then 0 else rune_width rest)
               else nat (strings_Index rest old))
      in take j rest @ new @ replace_loop (drop (j + length old) rest) old new False k)"

definition strings_Replace :: "string \<Rightarrow> string \<Rightarrow> string \<Rightarrow> int \<Rightarrow> string" where
  "strings_Replace s old new n =
     (if old = new \<or> n = 0 then s
      else let m = strings_Count s old in
        if m = 0 then s
        else replace_loop s old new True (nat (if n < 0 \<or> m < n then m else n)))"

section \<open>\<open>fmt\<close>: the verb \<open>%d\<close>\<close>

definition digit_char :: "nat \<Rightarrow> char" where
  "digit_char d = ''0123456789'' ! d"

fun decimal :: "nat \<Rightarrow> string" where
  "decimal n = (if n < 10 then [digit_char n] else decimal (n div 10) @ [digit_char (n mod 10)])"

declare decimal.simps [simp del]

definition fmt_d :: "int \<Rightarrow> string" where
  "fmt_d i = (if i < 0 then CHR ''-'' # decimal (nat (- i)) else decimal (nat i))"

section \<open>The file system seen through package \<open>os\<close>\<close>

text \<open>
  \<open>nodes\<close> says what the kernel finds at a path when it follows it to the end: nothing,
  a directory with the owner's search permission, or a regular file with its bytes and
  the owner's read and write permission. \<open>may_create\<close> says where a new file can be
  made (the parent directory exists and accepts entries); \<open>free\<close> is the number of bytes
  the device still takes, so that a write can stop short with \<open>ENOSPC\<close>.
\<close>

datatype node = File string bool bool | Dir bool

record filesystem =
  nodes :: "string \<Rightarrow> node option"
  may_create :: "string \<Rightarrow> bool"
  free :: nat

datatype errno = ENOENT | EACCES | EISDIR | ENOSPC | ENOTDIR

text \<open>\<open>*fs.PathError\<close>: operation, path and cause; \<open>Error()\<close> prints them.\<close>

datatype PathError = PathError string string errno

fun errno_Error :: "errno \<Rightarrow> string" where
  "errno_Error ENOENT = ''no such file or directory''"
| "errno_Error EACCES = ''permission denied''"
| "errno_Error EISDIR = ''is a directory''"
| "errno_Error ENOSPC = ''no space left on device''"
| "errno_Error ENOTDIR = ''not a directory''"

fun Error :: "PathError \<Rightarrow> string" where
  "Error (PathError op path e) = op @ '' '' @ path @ '': '' @ errno_Error e"

fun os_IsNotExist :: "PathError option \<Rightarrow> bool" where
  "os_IsNotExist None = False"
| "os_IsNotExist (Some (PathError op path e)) = (e = ENOENT)"

text \<open>
  The directories above a name, the outermost first: what stands before each separator
  of the name but the first character.
\<close>

definition dirs_above :: "string \<Rightarrow> string list" where
  "dirs_above name =
     map (\<lambda>i. take i name) (filter (\<lambda>i. name ! i = CHR ''/'') [1..<length name])"

text \<open>
  The way down from the root through directories: it stops at the first that is missing
  (\<open>ENOENT\<close>), is a regular file (\<open>ENOTDIR\<close>) or may not be searched (\<open>EACCES\<close>).
\<close>

fun lookup_dirs :: "filesystem \<Rightarrow> string list \<Rightarrow> errno option" where
  "lookup_dirs fs [] = None"
| "lookup_dirs fs (d # ds) =
     (case nodes fs d of
        None \<Rightarrow> Some ENOENT
      | Some (File bytes r w) \<Rightarrow> Some ENOTDIR
      | Some (Dir x) \<Rightarrow> if x then lookup_dirs fs ds else Some EACCES)"

text \<open>
  What the kernel answers for a name that names nothing: the error met on the way down
  through the directories above it, and \<open>ENOENT\<close> when they all let it through and only
  the last element is missing.
\<close>

definition lookup_error :: "filesystem \<Rightarrow> string \<Rightarrow> errno" where
  "lookup_error fs name =
     (case lookup_dirs fs (dirs_above name) of None \<Rightarrow> ENOENT | Some e \<Rightarrow> e)"

definition os_Stat :: "filesystem \<Rightarrow> string \<Rightarrow> PathError option" where
  "os_Stat fs name =
     (case nodes fs name of
        None \<Rightarrow> Some (PathError ''stat'' name (lookup_error fs name))
      | Some n \<Rightarrow> None)"

definition os_ReadFile :: "filesystem \<Rightarrow> string \<Rightarrow> PathError + string" where
  "os_ReadFile fs name =
     (case nodes fs name of
        None \<Rightarrow> Inl (PathError ''open'' name (lookup_error fs name))
      | Some (Dir x) \<Rightarrow> Inl (PathError ''read'' name EISDIR)
      | Some (File bytes r w) \<Rightarrow>
          if r then Inr bytes else Inl (PathError ''open'' name EACCES))"

text \<open>
  Opening for writing, as \<open>os.OpenFile(name, O_WRONLY|O_CREATE|..., 0644)\<close> does: a
  missing file is created empty with mode 0644 (readable and writable by the owner), and
  with \<open>trunc\<close> (\<open>O_TRUNC\<close>) an existing file is emptied and its bytes go back to the
  device. Where no file can be made, the error is the one met on the way down to the
  name, and \<open>EACCES\<close> when the way is free but the directory takes no new entry.
\<close>

definition create_error :: "filesystem \<Rightarrow> string \<Rightarrow> errno" where
  "create_error fs name =
     (case lookup_dirs fs (dirs_above name) of None \<Rightarrow> EACCES | Some e \<Rightarrow> e)"

definition open_write :: "bool \<Rightarrow> filesystem \<Rightarrow> string \<Rightarrow> PathError + filesystem" where
  "open_write trunc fs name =
     (case nodes fs name of
        None \<Rightarrow>
          if may_create fs name
          then Inr (fs\<lparr>nodes := (nodes fs)(name \<mapsto> File [] True True)\<rparr>)
          else Inl (PathError ''open'' name (create_error fs name))
      | Some (Dir x) \<Rightarrow> Inl (PathError ''open'' name EISDIR)
      | Some (File bytes r w) \<Rightarrow>
          if \<not> w then Inl (PathError ''open'' name EACCES)
          else if trunc
          then Inr (fs\<lparr>nodes := (nodes fs)(name \<mapsto> File [] r w), free := free fs + length bytes\<rparr>)
          else Inr fs)"

text \<open>
  Writing to the end of an open file (\<open>f.Write\<close>, \<open>f.WriteString\<close>; with \<open>O_APPEND\<close> or
  just after \<open>O_TRUNC\<close> the offset is the end): all of \<open>data\<close> if the device has room,
  otherwise as much as fits and the error \<open>ENOSPC\<close>.
\<close>

definition write_end :: "filesystem \<Rightarrow> string \<Rightarrow> string \<Rightarrow> PathError option \<times> filesystem" where
  "write_end fs name data =
     (case nodes fs name of
        Some (File bytes r w) \<Rightarrow>
          if length data \<le> free fs
          then (None, fs\<lparr>nodes := (nodes fs)(name \<mapsto> File (bytes @ data) r w),
                          free := free fs - length data\<rparr>)
          else (Some (PathError ''write'' name ENOSPC),
                fs\<lparr>nodes := (nodes fs)(name \<mapsto> File (bytes @ take (free fs) data) r w),
                    free := 0\<rparr>)
      | _ \<Rightarrow> (Some (PathError ''write'' name ENOENT), fs))"

text \<open>\<open>os.WriteFile(name, data, 0644)\<close>: open with \<open>O_WRONLY|O_CREATE|O_TRUNC\<close>, write, close.\<close>

definition os_WriteFile :: "filesystem \<Rightarrow> string \<Rightarrow> string \<Rightarrow> PathError option \<times> filesystem" where
  "os_WriteFile fs name data =
     (case open_write True fs name of
        Inl err \<Rightarrow> (Some err, fs)
      | Inr fs' \<Rightarrow> write_end fs' name data)"

text \<open>The bytes of a regular file, whatever its permissions; \<open>None\<close> for anything else.\<close>

definition file_content :: "filesystem \<Rightarrow> string \<Rightarrow> string option" where
  "file_content fs name = (case nodes fs name of Some (File bytes r w) \<Rightarrow> Some bytes | _ \<Rightarrow> None)"

section \<open>Tool results and arguments\<close>

text \<open>
  Modelled from the spec: the type \<open>ToolResult\<close> of package \<open>tools\<close>, which is not
  among the source files. The spec gives an operation result a success/error
  discriminant, a machine-readable message, a user-facing message that is empty for a
  silent result, and a silent flag; the tests read them as the fields \<open>IsError\<close>,
  \<open>ForLLM\<close>, \<open>ForUser\<close> and \<open>Silent\<close>.
\<close>

record ToolResult =
  ForLLM :: string
  ForUser :: string
  Silent :: bool
  IsError :: bool

text \<open>
  Modelled from the spec: the constructor \<open>ErrorResult\<close> of package \<open>tools\<close>, which is
  not among the source files. A failure carries its message and is not silent; the tests
  find the message of every failure in \<open>ForLLM\<close>.
\<close>

definition ErrorResult :: "string \<Rightarrow> ToolResult" where
  "ErrorResult message = \<lparr>ForLLM = message, ForUser = [], Silent = False, IsError = True\<rparr>"

text \<open>
  Modelled from the spec: the constructor \<open>SilentResult\<close> of package \<open>tools\<close>, which is
  not among the source files. A silent result is a success with a machine-readable
  confirmation and no user-facing message; the tests check \<open>Silent\<close>, an empty \<open>ForUser\<close>
  and no \<open>IsError\<close>.
\<close>

definition SilentResult :: "string \<Rightarrow> ToolResult" where
  "SilentResult forLLM = \<lparr>ForLLM = forLLM, ForUser = [], Silent = True, IsError = False\<rparr>"

text \<open>
  \<open>args map[string]interface{}\<close>: a value is a string or something else, and the type
  assertion \<open>args[k].(string)\<close> succeeds on a string only.
\<close>

datatype arg = StringVal string | NumberVal int | BoolVal bool | NullVal

fun as_string :: "arg option \<Rightarrow> string option" where
  "as_string (Some (StringVal s)) = Some s"
| "as_string _ = None"

section \<open>\<open>path/filepath\<close> on Unix: the calls made by \<open>pkg/tools/filelock.go\<close>\<close>

text \<open>The path elements between separators; \<open>strings.Join(elems, "/")\<close> is the inverse.\<close>

fun split_sep :: "string \<Rightarrow> string list" where
  "split_sep [] = [[]]"
| "split_sep (c # cs) =
     (if c = CHR ''/'' then [] # split_sep cs
      else case split_sep cs of [] \<Rightarrow> [[c]] | e # es \<Rightarrow> (c # e) # es)"

fun join_sep :: "string list \<Rightarrow> string" where
  "join_sep [] = []"
| "join_sep [e] = e"
| "join_sep (e # es) = e @ CHR ''/'' # join_sep es"

text \<open>
  One round of the loop of \<open>filepath.Clean\<close>, on the path element that starts at the
  read index. \<open>out\<close> holds the elements written so far, the last one first. An empty
  element and \<open>.\<close> are skipped. \<open>..\<close> removes the last element written if there is one
  that is not itself a leading \<open>..\<close> (the library's test \<open>out.w > dotdot\<close>), is written
  when the path is not rooted, and is dropped at the root.
\<close>

definition clean_step :: "bool \<Rightarrow> string list \<Rightarrow> string \<Rightarrow> string list" where
  "clean_step rooted out e =
     (if e = [] then out
      else if e = ''.'' then out
      else if e = ''..'' then
        (if out \<noteq> [] \<and> hd out \<noteq> ''..'' then tl out
         else if \<not> rooted then ''..'' # out
         else out)
      else e # out)"

definition filepath_Clean :: "string \<Rightarrow> string" where
  "filepath_Clean path =
     (if path = [] then ''.''
      else let rooted = (hd path = CHR ''/'');
               out = foldl (clean_step rooted) [] (split_sep path);
               buf = (if rooted then ''/'' else []) @ join_sep (rev out)
           in if buf = [] then ''.'' else buf)"

definition filepath_IsAbs :: "string \<Rightarrow> bool" where
  "filepath_IsAbs path = prefix ''/'' path"

text \<open>\<open>filepath.Join\<close>: the elements from the first non-empty one on, joined and cleaned.\<close>

definition filepath_Join :: "string list \<Rightarrow> string" where
  "filepath_Join elem =
     (case dropWhile (\<lambda>e. e = []) elem of
        [] \<Rightarrow> []
      | e # es \<Rightarrow> filepath_Clean (join_sep (e # es)))"

text \<open>
  \<open>filepath.Abs\<close>; \<open>wd\<close> is what \<open>os.Getwd\<close> returns, \<open>None\<close> when it fails (the
  working directory was removed, say).
\<close>

definition filepath_Abs :: "string option \<Rightarrow> string \<Rightarrow> string + string" where
  "filepath_Abs wd path =
     (if filepath_IsAbs path then Inr (filepath_Clean path)
      else case wd of
        None \<Rightarrow> Inl ''getwd: no such file or directory''
      | Some dir \<Rightarrow> Inr (filepath_Join [dir, path]))"

section \<open>\<open>pkg/tools/filelock.go\<close>: the lock manager, one caller at a time\<close>

text \<open>
  How a call ends. \<open>Blocked\<close>: it never returns, because it waits for a mutex that
  nobody will release. \<open>Fatal\<close>: the runtime stops the program (\<open>sync: unlock of
  unlocked mutex\<close>). \<open>Done\<close>: it is over, and \<^emph>\<open>how\<close> says whether by a return or by a
  panic that is still unwinding.
\<close>

datatype 'a run = Blocked | Fatal string | Done 'a

datatype 'a how = Return 'a | Panic string

definition bind :: "'a run \<Rightarrow> ('a \<Rightarrow> 'b run) \<Rightarrow> 'b run" where
  "bind m f = (case m of Blocked \<Rightarrow> Blocked | Fatal msg \<Rightarrow> Fatal msg | Done x \<Rightarrow> f x)"

text \<open>A \<open>sync.Mutex\<close> is its state: locked or not.\<close>

definition Mutex_Lock :: "bool \<Rightarrow> bool run" where
  "Mutex_Lock locked = (if locked then Blocked else Done True)"

definition Mutex_Unlock :: "bool \<Rightarrow> bool run" where
  "Mutex_Unlock locked = (if locked then Done False else Fatal ''sync: unlock of unlocked mutex'')"

text \<open>
  \<open>FileLockManager\<close>: \<open>locks\<close> maps a path to a \<open>*sync.Mutex\<close>, a pointer, here an
  address in the heap of the process.
\<close>

record FileLockManager =
  mu :: bool
  locks :: "string \<Rightarrow> nat option"

text \<open>
  The process: what \<open>os.Getwd\<close> returns, the \<open>sync.Mutex\<close> objects allocated so far
  (\<open>heap\<close> at the addresses below \<open>brk\<close>), the variable \<open>globalFileLockManager\<close> and
  the file system.
\<close>

record process =
  getwd :: "string option"
  heap :: "nat \<Rightarrow> bool"
  brk :: nat
  globalFileLockManager :: FileLockManager
  disk :: filesystem

definition newFileLockManager :: FileLockManager where
  "newFileLockManager = \<lparr>mu = False, locks = Map.empty\<rparr>"

text \<open>Lines 38 to 42 of \<open>getLock\<close>: the key under which the path is locked.\<close>

definition lock_key :: "string option \<Rightarrow> string \<Rightarrow> string" where
  "lock_key wd path =
     (case filepath_Abs wd path of
        Inl err \<Rightarrow> filepath_Clean path
      | Inr absPath \<Rightarrow> absPath)"

text \<open>Lines 47 to 53: look the key up, and allocate and store a mutex if it is new.\<close>

definition lookup_or_create :: "process \<Rightarrow> string \<Rightarrow> nat \<times> process" where
  "lookup_or_create p absPath =
     (let flm = globalFileLockManager p in
      case locks flm absPath of
        Some lock \<Rightarrow> (lock, p)
      | None \<Rightarrow>
          (brk p,
           p\<lparr>heap := (heap p)(brk p := False), brk := Suc (brk p),
             globalFileLockManager := flm\<lparr>locks := (locks flm)(absPath \<mapsto> brk p)\<rparr>\<rparr>))"

definition set_mu :: "bool \<Rightarrow> process \<Rightarrow> process" where
  "set_mu b p = p\<lparr>globalFileLockManager := (globalFileLockManager p)\<lparr>mu := b\<rparr>\<rparr>"

definition getLock :: "process \<Rightarrow> string \<Rightarrow> (nat \<times> process) run" where
  "getLock p path =
     (let absPath = lock_key (getwd p) path in
      bind (Mutex_Lock (mu (globalFileLockManager p))) (\<lambda>m.
        let (lock, p') = lookup_or_create (set_mu m p) absPath in
        bind (Mutex_Unlock (mu (globalFileLockManager p'))) (\<lambda>m'.
          Done (lock, set_mu m' p'))))"

definition Lock :: "process \<Rightarrow> string \<Rightarrow> process run" where
  "Lock p path =
     bind (getLock p path) (\<lambda>(lock, p').
       bind (Mutex_Lock (heap p' lock)) (\<lambda>m. Done (p'\<lparr>heap := (heap p')(lock := m)\<rparr>)))"

definition Unlock :: "process \<Rightarrow> string \<Rightarrow> process run" where
  "Unlock p path =
     bind (getLock p path) (\<lambda>(lock, p').
       bind (Mutex_Unlock (heap p' lock)) (\<lambda>m. Done (p'\<lparr>heap := (heap p')(lock := m)\<rparr>)))"

text \<open>
  \<open>WithLock\<close>: \<open>fn\<close> returns a value or panics; the deferred \<open>Unlock\<close> runs in both
  cases, and afterwards the return value is handed on or the panic goes on unwinding.
\<close>

definition WithLock ::
  "process \<Rightarrow> string \<Rightarrow> (process \<Rightarrow> ('e how \<times> process) run) \<Rightarrow> ('e how \<times> process) run" where
  "WithLock p path fn =
     bind (Lock p path) (\<lambda>p1.
       bind (fn p1) (\<lambda>(result, p2).
         bind (Unlock p2 path) (\<lambda>p3. Done (result, p3))))"

section \<open>\<open>pkg/tools/edit.go\<close>\<close>

text \<open>
  The function literal that \<open>EditFileTool.Execute\<close> passes to \<open>WithLock\<close>: what it
  assigns to the captured variable \<open>result\<close>, and the file system it leaves. It always
  returns \<open>nil\<close>.
\<close>

definition edit_locked ::
  "string \<Rightarrow> string \<Rightarrow> string \<Rightarrow> string \<Rightarrow> filesystem \<Rightarrow> ToolResult \<times> filesystem" where
  "edit_locked path resolvedPath oldText newText fs =
     (if os_IsNotExist (os_Stat fs resolvedPath)
      then (ErrorResult (''file not found: '' @ path), fs)
      else case os_ReadFile fs resolvedPath of
        Inl err \<Rightarrow> (ErrorResult (''failed to read file: '' @ Error err), fs)
      | Inr contentStr \<Rightarrow>
          if \<not> strings_Contains contentStr oldText
          then (ErrorResult ''old_text not found in file. Make sure it matches exactly'', fs)
          else let count = strings_Count contentStr oldText in
            if count > 1
            then (ErrorResult (''old_text appears '' @ fmt_d count
                    @ '' times. Please provide more context to make it unique''), fs)
            else let newContent = strings_Replace contentStr oldText newText 1 in
              case os_WriteFile fs resolvedPath newContent of
                (Some err, fs') \<Rightarrow> (ErrorResult (''failed to write file: '' @ Error err), fs')
              | (None, fs') \<Rightarrow> (SilentResult (''File edited: '' @ path), fs'))"

text \<open>
  The function literal of \<open>AppendFileTool.Execute\<close>: open with
  \<open>O_APPEND|O_CREATE|O_WRONLY\<close>, write, and close on the way out.
\<close>

definition append_locked ::
  "string \<Rightarrow> string \<Rightarrow> string \<Rightarrow> filesystem \<Rightarrow> ToolResult \<times> filesystem" where
  "append_locked path resolvedPath content fs =
     (case open_write False fs resolvedPath of
        Inl err \<Rightarrow> (ErrorResult (''failed to open file: '' @ Error err), fs)
      | Inr fs1 \<Rightarrow>
          (case write_end fs1 resolvedPath content of
             (Some err, fs2) \<Rightarrow> (ErrorResult (''failed to append to file: '' @ Error err), fs2)
           | (None, fs2) \<Rightarrow> (SilentResult (''Appended to '' @ path), fs2)))"

text \<open>
  Running such a function literal as the \<open>fn\<close> of \<open>WithLock\<close>: it works on the disk,
  returns the error \<open>nil\<close>, and \<open>result\<close> travels with it.
\<close>

definition closure ::
  "(filesystem \<Rightarrow> ToolResult \<times> filesystem) \<Rightarrow> process
     \<Rightarrow> ((ToolResult \<times> string option) how \<times> process) run" where
  "closure body p =
     (let (result, fs') = body (disk p) in Done (Return (result, None), p\<lparr>disk := fs'\<rparr>))"

text \<open>What follows \<open>WithLock\<close> in both tools: \<open>lockErr\<close> is checked, \<open>result\<close> returned.\<close>

definition after_lock ::
  "((ToolResult \<times> string option) how \<times> process) run \<Rightarrow> (ToolResult how \<times> process) run" where
  "after_lock r =
     bind r (\<lambda>(h, p).
       case h of
         Panic v \<Rightarrow> Done (Panic v, p)
       | Return (result, lockErr) \<Rightarrow>
           (case lockErr of
              Some e \<Rightarrow> Done (Return (ErrorResult (''lock error: '' @ e)), p)
            | None \<Rightarrow> Done (Return result, p)))"

text \<open>
  \<open>validatePath\<close> is a function of package \<open>tools\<close> that is not among the source files;
  the tools take it as a parameter \<open>vp\<close>: from the requested path, the directory and
  the restriction flag to an error message (\<open>Inl\<close>) or the resolved path. The tools are
  the pairs of their two fields: \<open>(allowedDir, restrict)\<close> and \<open>(workspace, restrict)\<close>.
\<close>

type_synonym validator = "string \<Rightarrow> string \<Rightarrow> bool \<Rightarrow> string + string"

definition EditFileTool_Execute ::
  "validator \<Rightarrow> string \<times> bool \<Rightarrow> (string \<Rightarrow> arg option) \<Rightarrow> process
     \<Rightarrow> (ToolResult how \<times> process) run" where
  "EditFileTool_Execute vp t args p =
     (case as_string (args ''path'') of
        None \<Rightarrow> Done (Return (ErrorResult ''path is required''), p)
      | Some path \<Rightarrow>
     (case as_string (args ''old_text'') of
        None \<Rightarrow> Done (Return (ErrorResult ''old_text is required''), p)
      | Some oldText \<Rightarrow>
     (case as_string (args ''new_text'') of
        None \<Rightarrow> Done (Return (ErrorResult ''new_text is required''), p)
      | Some newText \<Rightarrow>
     (case vp path (fst t) (snd t) of
        Inl err \<Rightarrow> Done (Return (ErrorResult err), p)
      | Inr resolvedPath \<Rightarrow>
          after_lock (WithLock p resolvedPath
            (closure (edit_locked path resolvedPath oldText newText)))))))"

definition AppendFileTool_Execute ::
  "validator \<Rightarrow> string \<times> bool \<Rightarrow> (string \<Rightarrow> arg option) \<Rightarrow> process
     \<Rightarrow> (ToolResult how \<times> process) run" where
  "AppendFileTool_Execute vp t args p =
     (case as_string (args ''path'') of
        None \<Rightarrow> Done (Return (ErrorResult ''path is required''), p)
      | Some path \<Rightarrow>
     (case as_string (args ''content'') of
        None \<Rightarrow> Done (Return (ErrorResult ''content is required''), p)
      | Some content \<Rightarrow>
     (case vp path (fst t) (snd t) of
        Inl err \<Rightarrow> Done (Return (ErrorResult err), p)
      | Inr resolvedPath \<Rightarrow>
          after_lock (WithLock p resolvedPath
            (closure (append_locked path resolvedPath content))))))"

section \<open>Notions of the specification\<close>

text \<open>
  The number of occurrences of \<open>sub\<close> in \<open>s\<close> as an exact substring: the number of
  offsets of \<open>s\<close> at which \<open>sub\<close> stands.
\<close>

definition occurrences :: "string \<Rightarrow> string \<Rightarrow> nat" where
  "occurrences s sub = length (filter (\<lambda>i. prefix sub (drop i s)) [0..<Suc (length s)])"

text \<open>
  Where a path leads, read element by element as the file system reads it when no
  symbolic link is in the way: from the root if the path is rooted, otherwise from the
  working directory; an empty element and \<open>.\<close> stay where they are, \<open>..\<close> goes up one
  directory and stays at the root, any other element goes down into the entry of that
  name. A place is the list of the names from the root down to it. Two spellings are
  spellings of the same file when they lead to the same place.
\<close>

definition walk :: "string list \<Rightarrow> string \<Rightarrow> string list" where
  "walk names e =
     (if e = [] \<or> e = ''.'' then names
      else if e = ''..'' then butlast names
      else names @ [e])"

definition place :: "string \<Rightarrow> string \<Rightarrow> string list" where
  "place wd path =
     foldl walk (if filepath_IsAbs path then [] else foldl walk [] (split_sep wd))
       (split_sep path)"

text \<open>
  Nobody is inside the lock manager and nobody holds the lock of \<open>path\<close>: a caller that
  asks for this lock gets it at once.
\<close>

definition lock_idle :: "process \<Rightarrow> string \<Rightarrow> bool" where
  "lock_idle p path =
     (\<not> mu (globalFileLockManager p) \<and>
      (case locks (globalFileLockManager p) (lock_key (getwd p) path) of
         None \<Rightarrow> True
       | Some lock \<Rightarrow> \<not> heap p lock))"


definition ContentNotFound :: ToolResult where
  "ContentNotFound = ErrorResult ''old_text not found in file. Make sure it matches exactly''"

definition AmbiguousMatch :: "int \<Rightarrow> ToolResult" where
  "AmbiguousMatch count =
     ErrorResult (''old_text appears '' @ fmt_d count
       @ '' times. Please provide more context to make it unique'')"

section \<open>Callers that run at the same time\<close>

text \<open>
  A tool call that has passed its argument checks and \<open>validatePath\<close> (neither touches
  shared state): the requested path, the resolved path, and the texts.
\<close>

datatype call = EditCall string string string string | AppendCall string string string

fun resolved :: "call \<Rightarrow> string" where
  "resolved (EditCall path resolvedPath oldText newText) = resolvedPath"
| "resolved (AppendCall path resolvedPath content) = resolvedPath"

fun locked_body :: "call \<Rightarrow> filesystem \<Rightarrow> ToolResult \<times> filesystem" where
  "locked_body (EditCall path resolvedPath oldText newText) =
     edit_locked path resolvedPath oldText newText"
| "locked_body (AppendCall path resolvedPath content) = append_locked path resolvedPath content"

text \<open>
  Where a caller stands inside its function literal: before one of the system calls
  (\<open>os.WriteFile\<close> is an open with \<open>O_TRUNC\<close> and a write), or with \<open>result\<close> assigned
  and about to return. What happens between two system calls is local to the caller.
\<close>

datatype body_pc =
    AtStat | AtReadFile | AtWriteFile_open string | AtWriteFile_write string
  | AtOpenFile | AtWriteString
  | Assigned ToolResult

fun body_init :: "call \<Rightarrow> body_pc" where
  "body_init (EditCall path resolvedPath oldText newText) = AtStat"
| "body_init (AppendCall path resolvedPath content) = AtOpenFile"

fun body_step :: "call \<Rightarrow> body_pc \<Rightarrow> filesystem \<Rightarrow> body_pc \<times> filesystem" where
  "body_step (EditCall path resolvedPath oldText newText) AtStat fs =
     (if os_IsNotExist (os_Stat fs resolvedPath)
      then (Assigned (ErrorResult (''file not found: '' @ path)), fs)
      else (AtReadFile, fs))"
| "body_step (EditCall path resolvedPath oldText newText) AtReadFile fs =
     (case os_ReadFile fs resolvedPath of
        Inl err \<Rightarrow> (Assigned (ErrorResult (''failed to read file: '' @ Error err)), fs)
      | Inr contentStr \<Rightarrow>
          if \<not> strings_Contains contentStr oldText
          then (Assigned (ErrorResult
                  ''old_text not found in file. Make sure it matches exactly''), fs)
          else let count = strings_Count contentStr oldText in
            if count > 1
            then (Assigned (ErrorResult (''old_text appears '' @ fmt_d count
                    @ '' times. Please provide more context to make it unique'')), fs)
            else (AtWriteFile_open (strings_Replace contentStr oldText newText 1), fs))"
| "body_step (EditCall path resolvedPath oldText newText) (AtWriteFile_open newContent) fs =
     (case open_write True fs resolvedPath of
        Inl err \<Rightarrow> (Assigned (ErrorResult (''failed to write file: '' @ Error err)), fs)
      | Inr fs' \<Rightarrow> (AtWriteFile_write newContent, fs'))"
| "body_step (EditCall path resolvedPath oldText newText) (AtWriteFile_write newContent) fs =
     (case write_end fs resolvedPath newContent of
        (Some err, fs') \<Rightarrow> (Assigned (ErrorResult (''failed to write file: '' @ Error err)), fs')
      | (None, fs') \<Rightarrow> (Assigned (SilentResult (''File edited: '' @ path)), fs'))"
| "body_step (AppendCall path resolvedPath content) AtOpenFile fs =
     (case open_write False fs resolvedPath of
        Inl err \<Rightarrow> (Assigned (ErrorResult (''failed to open file: '' @ Error err)), fs)
      | Inr fs1 \<Rightarrow> (AtWriteString, fs1))"
| "body_step (AppendCall path resolvedPath content) AtWriteString fs =
     (case write_end fs resolvedPath content of
        (Some err, fs2) \<Rightarrow>
          (Assigned (ErrorResult (''failed to append to file: '' @ Error err)), fs2)
      | (None, fs2) \<Rightarrow> (Assigned (SilentResult (''Appended to '' @ path)), fs2))"
| "body_step c b fs = (b, fs)"

text \<open>
  Where a caller stands inside \<open>getLock\<close>: before \<open>flm.mu.Lock()\<close>, inside with \<open>mu\<close>
  held, with the lock found or made and the deferred \<open>flm.mu.Unlock()\<close> still to run, and
  back outside with the lock in hand.
\<close>

datatype stage = Enter | Inside | Found nat | Left nat

text \<open>
  Where a caller stands inside \<open>WithLock\<close>: in \<open>flm.Lock(path)\<close>, in \<open>fn\<close>, in the
  deferred \<open>flm.Unlock(path)\<close> with \<open>result\<close> assigned, or back in \<open>Execute\<close> which
  returns \<open>result\<close>; \<open>Crashed\<close> is the runtime's fatal error.
\<close>

datatype pc =
    Locking stage
  | Running body_pc
  | Unlocking stage ToolResult
  | Finished ToolResult
  | Crashed string

text \<open>
  The next step of one caller, \<open>None\<close> while it has to wait (or has nothing left to
  do). A step is one operation on a mutex, the lookup or insertion of lines 47 to 51, or
  one system call.
\<close>

fun thread_step :: "call \<Rightarrow> pc \<Rightarrow> process \<Rightarrow> (pc \<times> process) option" where
  "thread_step c (Locking Enter) p =
     (if mu (globalFileLockManager p) then None else Some (Locking Inside, set_mu True p))"
| "thread_step c (Locking Inside) p =
     (let (lock, p') = lookup_or_create p (lock_key (getwd p) (resolved c))
      in Some (Locking (Found lock), p'))"
| "thread_step c (Locking (Found lock)) p =
     (if mu (globalFileLockManager p) then Some (Locking (Left lock), set_mu False p)
      else Some (Crashed ''sync: unlock of unlocked mutex'', p))"
| "thread_step c (Locking (Left lock)) p =
     (if heap p lock then None
      else Some (Running (body_init c), p\<lparr>heap := (heap p)(lock := True)\<rparr>))"
| "thread_step c (Running (Assigned result)) p = Some (Unlocking Enter result, p)"
| "thread_step c (Running b) p =
     (let (b', fs') = body_step c b (disk p) in Some (Running b', p\<lparr>disk := fs'\<rparr>))"
| "thread_step c (Unlocking Enter result) p =
     (if mu (globalFileLockManager p) then None
      else Some (Unlocking Inside result, set_mu True p))"
| "thread_step c (Unlocking Inside result) p =
     (let (lock, p') = lookup_or_create p (lock_key (getwd p) (resolved c))
      in Some (Unlocking (Found lock) result, p'))"
| "thread_step c (Unlocking (Found lock) result) p =
     (if mu (globalFileLockManager p) then Some (Unlocking (Left lock) result, set_mu False p)
      else Some (Crashed ''sync: unlock of unlocked mutex'', p))"
| "thread_step c (Unlocking (Left lock) result) p =
     (if heap p lock then Some (Finished result, p\<lparr>heap := (heap p)(lock := False)\<rparr>)
      else Some (Crashed ''sync: unlock of unlocked mutex'', p))"
| "thread_step c (Finished result) p = None"
| "thread_step c (Crashed msg) p = None"

text \<open>
  The callers \<open>calls ! i\<close> run together: the process and where each caller stands. Any
  caller that can take its next step may take it.
\<close>

type_synonym system = "process \<times> pc list"

inductive step :: "call list \<Rightarrow> system \<Rightarrow> system \<Rightarrow> bool" for calls :: "call list" where
  "i < length pcs \<Longrightarrow> i < length calls \<Longrightarrow>
   thread_step (calls ! i) (pcs ! i) p = Some (pc', p') \<Longrightarrow>
   step calls (p, pcs) (p', pcs[i := pc'])"

definition runs :: "call list \<Rightarrow> system \<Rightarrow> system \<Rightarrow> bool" where
  "runs calls = (step calls)\<^sup>*\<^sup>*"

text \<open>The same, with the order of the steps given as a list of callers.\<close>

fun exec :: "call list \<Rightarrow> nat list \<Rightarrow> system \<Rightarrow> system option" where
  "exec calls [] s = Some s"
| "exec calls (i # schedule) (p, pcs) =
     (if i < length pcs \<and> i < length calls
      then case thread_step (calls ! i) (pcs ! i) p of
             None \<Rightarrow> None
           | Some (pc', p') \<Rightarrow> exec calls schedule (p', pcs[i := pc'])
      else None)"

text \<open>
  The callers start in a process whose lock manager is the one made by
  \<open>newFileLockManager\<close> for the variable \<open>globalFileLockManager\<close>.
\<close>

definition start :: "process \<Rightarrow> call list \<Rightarrow> system" where
  "start p calls = (p\<lparr>globalFileLockManager := newFileLockManager\<rparr>,
                    replicate (length calls) (Locking Enter))"

text \<open>A caller holds \<open>flm.mu\<close>; has a lock in hand; is between \<open>Lock\<close> and \<open>Unlock\<close>.\<close>

fun holds_mu :: "pc \<Rightarrow> bool" where
  "holds_mu (Locking Inside) = True"
| "holds_mu (Locking (Found lock)) = True"
| "holds_mu (Unlocking Inside result) = True"
| "holds_mu (Unlocking (Found lock) result) = True"
| "holds_mu pc = False"

fun in_hand :: "pc \<Rightarrow> nat option" where
  "in_hand (Locking (Found lock)) = Some lock"
| "in_hand (Locking (Left lock)) = Some lock"
| "in_hand (Unlocking (Found lock) result) = Some lock"
| "in_hand (Unlocking (Left lock) result) = Some lock"
| "in_hand pc = None"

fun in_section :: "pc \<Rightarrow> bool" where
  "in_section (Running b) = True"
| "in_section (Unlocking st result) = True"
| "in_section pc = False"

fun finished :: "pc \<Rightarrow> ToolResult option" where
  "finished (Finished result) = Some result"
| "finished pc = None"

text \<open>The calls made one after the other, in the given order, on a disk.\<close>

definition in_turn :: "call list \<Rightarrow> filesystem \<Rightarrow> nat list \<Rightarrow> filesystem" where
  "in_turn calls fs order = foldl (\<lambda>fs i. snd (locked_body (calls ! i) fs)) fs order"

section \<open>Example states\<close>

text \<open>
  A validator that takes every path as resolved, a small disk and a fresh process. The
  disk has the directory \<open>/w\<close>, in which new files can be made, with four files and a
  directory \<open>/w/locked\<close> that may not be searched.
\<close>

definition accept_path :: validator where
  "accept_path path dir restrict = Inr path"

definition example_disk :: filesystem where
  "example_disk =
     \<lparr>nodes = [''/w'' \<mapsto> Dir True,
               ''/w/locked'' \<mapsto> Dir False,
               ''/w/notes.txt'' \<mapsto> File ''Hello World\<newline>This is a test'' True True,
               ''/w/aaa.txt'' \<mapsto> File ''aaa'' True True,
               ''/w/tests.txt'' \<mapsto> File ''test test test'' True True,
               ''/w/empty.txt'' \<mapsto> File [] True True],
      may_create = (\<lambda>name. take 3 name = ''/w/'' \<and> CHR ''/'' \<notin> set (drop 3 name)),
      free = 4096\<rparr>"

definition example_process :: process where
  "example_process =
     \<lparr>getwd = Some ''/w'', heap = (\<lambda>a. False), brk = 0,
      globalFileLockManager = newFileLockManager, disk = example_disk\<rparr>"

definition edit_args :: "string \<Rightarrow> string \<Rightarrow> string \<Rightarrow> string \<Rightarrow> arg option" where
  "edit_args path oldText newText =
     [''path'' \<mapsto> StringVal path, ''old_text'' \<mapsto> StringVal oldText,
      ''new_text'' \<mapsto> StringVal newText]"

definition append_args :: "string \<Rightarrow> string \<Rightarrow> string \<Rightarrow> arg option" where
  "append_args path content = [''path'' \<mapsto> StringVal path, ''content'' \<mapsto> StringVal content]"

text \<open>
  Two appends to one file, a schedule that lets the second one write first, and two calls
  that spell one file in two ways.
\<close>

definition two_appends :: "call list" where
  "two_appends = [AppendCall ''log.txt'' ''/w/log.txt'' ''A\<newline>'',
                  AppendCall ''log.txt'' ''/w/log.txt'' ''B\<newline>'']"

definition b_first :: "nat list" where
  "b_first = [0, 0, 0, 1, 1, 1, 1, 1, 1, 1, 1, 1, 1, 1, 0, 0, 0, 0, 0, 0, 0, 0]"

definition two_spellings :: "call list" where
  "two_spellings = [AppendCall ''./log.txt'' ''./log.txt'' ''A\<newline>'',
                    AppendCall ''/w//log.txt'' ''/w//log.txt'' ''B\<newline>'']"

section \<open>What holds in every state the callers can reach\<close>

text \<open>
  The key under which a call locks its path.
\<close>

definition key :: "process \<Rightarrow> call \<Rightarrow> string" where
  "key p c = lock_key (getwd p) (resolved c)"

text \<open>
  The registered locks have been allocated, and no lock is registered under two keys.
\<close>

definition registry_ok :: "process \<Rightarrow> bool" where
  "registry_ok p \<longleftrightarrow>
     (\<forall>k l. locks (globalFileLockManager p) k = Some l \<longrightarrow> l < brk p) \<and>
     (\<forall>k k' l. locks (globalFileLockManager p) k = Some l \<longrightarrow>
        locks (globalFileLockManager p) k' = Some l \<longrightarrow> k = k')"

text \<open>
  The number of callers is fixed and the registry is in order; \<open>flm.mu\<close> is locked
  exactly when a caller is between \<open>flm.mu.Lock()\<close> and \<open>flm.mu.Unlock()\<close>, and at most
  one is; a lock that a caller has in hand is the one registered under the caller's key;
  a caller between \<open>Lock\<close> and \<open>Unlock\<close> has the lock of its key locked, and no two such
  callers have the same key; nobody has met the fatal error.
\<close>

definition lock_invariant :: "call list \<Rightarrow> process \<Rightarrow> pc list \<Rightarrow> bool" where
  "lock_invariant calls p pcs \<longleftrightarrow>
     length pcs = length calls \<and> registry_ok p \<and>
     (mu (globalFileLockManager p) \<longleftrightarrow> (\<exists>i<length calls. holds_mu (pcs ! i))) \<and>
     (\<forall>i<length calls. \<forall>j<length calls. holds_mu (pcs ! i) \<longrightarrow> holds_mu (pcs ! j) \<longrightarrow> i = j) \<and>
     (\<forall>i<length calls. \<forall>l. in_hand (pcs ! i) = Some l \<longrightarrow>
        locks (globalFileLockManager p) (key p (calls ! i)) = Some l) \<and>
     (\<forall>i<length calls. in_section (pcs ! i) \<longrightarrow>
        (\<exists>l. locks (globalFileLockManager p) (key p (calls ! i)) = Some l \<and> heap p l)) \<and>
     (\<forall>i<length calls. \<forall>j<length calls. in_section (pcs ! i) \<longrightarrow> in_section (pcs ! j) \<longrightarrow>
        key p (calls ! i) = key p (calls ! j) \<longrightarrow> i = j) \<and>
     (\<forall>i<length calls. \<forall>msg. pcs ! i \<noteq> Crashed msg)"

text \<open>
  The rest of a function literal, run without interruption (it has at most four system
  calls), and how far a caller has come: in the function literal, or past it with
  \<open>result\<close> assigned.
\<close>

fun finish :: "nat \<Rightarrow> call \<Rightarrow> body_pc \<times> filesystem \<Rightarrow> body_pc \<times> filesystem" where
  "finish 0 c x = x"
| "finish (Suc k) c x = finish k c (body_step c (fst x) (snd x))"

fun progress :: "pc \<Rightarrow> (body_pc + ToolResult) option" where
  "progress (Running b) = Some (Inl b)"
| "progress (Unlocking st result) = Some (Inr result)"
| "progress (Finished result) = Some (Inr result)"
| "progress pc = None"

text \<open>
  The callers that have entered their function literal, in the order in which they
  did, explain the disk \<open>d\<close>, starting from the disk \<open>base\<close>: each one found the disk
  that its predecessors left and has the result of \<open>locked_body\<close> on it; only the last
  one may still be inside, and then finishing its function literal without interruption
  leads from \<open>d\<close> to what \<open>locked_body\<close> gives.
\<close>

fun ordered :: "call list \<Rightarrow> pc list \<Rightarrow> filesystem \<Rightarrow> filesystem \<Rightarrow> nat list \<Rightarrow> bool" where
  "ordered calls pcs d base [] = (d = base)"
| "ordered calls pcs d base (i # rest) =
     (case progress (pcs ! i) of
        None \<Rightarrow> False
      | Some (Inl b) \<Rightarrow>
          rest = [] \<and>
          finish 4 (calls ! i) (b, d)
            = (Assigned (fst (locked_body (calls ! i) base)), snd (locked_body (calls ! i) base))
      | Some (Inr r) \<Rightarrow>
          r = fst (locked_body (calls ! i) base) \<and>
          ordered calls pcs d (snd (locked_body (calls ! i) base)) rest)"

definition serial :: "call list \<Rightarrow> filesystem \<Rightarrow> process \<Rightarrow> pc list \<Rightarrow> bool" where
  "serial calls d0 p pcs \<longleftrightarrow>
     (\<exists>order. distinct order \<and> set order = {i. i < length calls \<and> progress (pcs ! i) \<noteq> None}
        \<and> ordered calls pcs (disk p) d0 order)"

text \<open>
  The places of a function literal that belong to an edit and to an append. A locked lock
  has a caller between \<open>Lock\<close> and \<open>Unlock\<close> of its key, and every caller inside a
  function literal is at a place of its own call.
\<close>

fun fits :: "call \<Rightarrow> body_pc \<Rightarrow> bool" where
  "fits c (Assigned result) = True"
| "fits (EditCall path resolvedPath oldText newText) AtOpenFile = False"
| "fits (EditCall path resolvedPath oldText newText) AtWriteString = False"
| "fits (EditCall path resolvedPath oldText newText) b = True"
| "fits (AppendCall path resolvedPath content) AtOpenFile = True"
| "fits (AppendCall path resolvedPath content) AtWriteString = True"
| "fits (AppendCall path resolvedPath content) b = False"

definition on_track :: "call list \<Rightarrow> process \<Rightarrow> pc list \<Rightarrow> bool" where
  "on_track calls p pcs \<longleftrightarrow>
     (\<forall>k l. locks (globalFileLockManager p) k = Some l \<longrightarrow> heap p l \<longrightarrow>
        (\<exists>i<length calls. in_section (pcs ! i) \<and> key p (calls ! i) = k)) \<and>
     (\<forall>i<length calls. \<forall>b. pcs ! i = Running b \<longrightarrow> fits (calls ! i) b)"

text \<open>
  How far a caller has come, counted in steps: every step takes it further, and none
  takes it beyond thirteen.
\<close>

fun body_rank :: "body_pc \<Rightarrow> nat" where
  "body_rank AtStat = 0"
| "body_rank AtReadFile = 1"
| "body_rank (AtWriteFile_open newContent) = 2"
| "body_rank (AtWriteFile_write newContent) = 3"
| "body_rank AtOpenFile = 0"
| "body_rank AtWriteString = 1"
| "body_rank (Assigned result) = 4"

fun stage_rank :: "stage \<Rightarrow> nat" where
  "stage_rank Enter = 0"
| "stage_rank Inside = 1"
| "stage_rank (Found lock) = 2"
| "stage_rank (Left lock) = 3"

fun rank :: "pc \<Rightarrow> nat" where
  "rank (Locking st) = stage_rank st"
| "rank (Running b) = 4 + body_rank b"
| "rank (Unlocking st result) = 9 + stage_rank st"
| "rank (Finished result) = 13"
| "rank (Crashed msg) = 13"

definition spent :: "pc list \<Rightarrow> nat" where
  "spent pcs = sum_list (map rank pcs)"

text \<open>
  What an append call appends, and what a file holds (nothing, if there is no file).
\<close>

fun payload :: "call \<Rightarrow> string" where
  "payload (AppendCall path resolvedPath content) = content"
| "payload (EditCall path resolvedPath oldText newText) = []"

definition prior_content :: "filesystem \<Rightarrow> string \<Rightarrow> string" where
  "prior_content fs name = (case file_content fs name of None \<Rightarrow> [] | Some bytes \<Rightarrow> bytes)"

section \<open>Cleaned paths\<close>

text \<open>
  A path element that \<open>filepath.Clean\<close> keeps as it is, and the shape of what it has
  written at any time (last element first): elements of that kind, above a block of
  leading \<open>..\<close> that is empty when the path is rooted.
\<close>

definition real_elem :: "string \<Rightarrow> bool" where
  "real_elem e \<longleftrightarrow> e \<noteq> [] \<and> e \<noteq> ''.'' \<and> e \<noteq> ''..'' \<and> CHR ''/'' \<notin> set e"

definition cleaned :: "bool \<Rightarrow> string list \<Rightarrow> bool" where
  "cleaned rooted out \<longleftrightarrow>
     (\<exists>k reals. out = reals @ replicate k ''..'' \<and> (\<forall>e \<in> set reals. real_elem e)
        \<and> (rooted \<longrightarrow> k = 0))"

section \<open>Facts about the library functions\<close>

lemma occurrences_Nil: "occurrences [] sub = (if sub = [] then 1 else 0)"
  by (simp add: occurrences_def)

lemma occurrences_Cons:
  "occurrences (c # cs) sub = (if prefix sub (c # cs) then 1 else 0) + occurrences cs sub"
proof -
  have "[0..<Suc (Suc (length cs))] = 0 # [Suc 0..<Suc (Suc (length cs))]"
    by (rule upt_conv_Cons) simp
  also have "[Suc 0..<Suc (Suc (length cs))] = map Suc [0..<Suc (length cs)]"
    by (rule map_Suc_upt [symmetric])
  finally show ?thesis
    by (simp add: occurrences_def filter_map comp_def del: upt_Suc)
qed

lemma occurrences_card:
  "occurrences s sub = card {i. i \<le> length s \<and> prefix sub (drop i s)}"
proof -
  have "{i. i < length [0..<Suc (length s)] \<and> prefix sub (drop ([0..<Suc (length s)] ! i) s)}
      = {i. i \<le> length s \<and> prefix sub (drop i s)}"
    by (auto simp: less_Suc_eq_le nth_upt simp del: upt_Suc)
  then show ?thesis
    unfolding occurrences_def length_filter_conv_card by simp
qed

lemma occurrences_empty: "occurrences s [] = Suc (length s)"
  by (induction s) (simp_all add: occurrences_Nil occurrences_Cons)

lemma occurrences_drop_le: "occurrences (drop k s) sub \<le> occurrences s sub"
proof (induction s arbitrary: k)
  case Nil
  then show ?case by simp
next
  case (Cons c cs)
  show ?case
  proof (cases k)
    case 0
    then show ?thesis by simp
  next
    case (Suc k')
    with Cons [of k'] show ?thesis by (simp add: occurrences_Cons)
  qed
qed

lemma Index_nonneg_iff: "0 \<le> strings_Index s sub \<longleftrightarrow> 0 < occurrences s sub"
  by (induction s) (auto simp: occurrences_Nil occurrences_Cons Let_def)

lemma Index_first:
  assumes "0 \<le> strings_Index s sub"
  shows "prefix sub (drop (nat (strings_Index s sub)) s)"
    and "j < nat (strings_Index s sub) \<Longrightarrow> \<not> prefix sub (drop j s)"
  using assms
proof (induction s arbitrary: j)
  case Nil
  { case 1 then show ?case by (simp split: if_splits) }
  { case 2 then show ?case by (simp split: if_splits) }
next
  case (Cons c cs)
  { case 1
    show ?case
    proof (cases "prefix sub (c # cs)")
      case True
      then show ?thesis by simp
    next
      case False
      with 1 have nn: "0 \<le> strings_Index cs sub" by (simp add: Let_def split: if_splits)
      with False Cons.IH(1) show ?thesis by (simp add: Let_def nat_add_distrib)
    qed }
  { case 2
    show ?case
    proof (cases "prefix sub (c # cs)")
      case True
      with 2 show ?thesis by simp
    next
      case False
      with 2 have nn: "0 \<le> strings_Index cs sub" by (simp add: Let_def split: if_splits)
      show ?thesis
      proof (cases j)
        case 0
        with False show ?thesis by simp
      next
        case (Suc j')
        with 2 False nn have "j' < nat (strings_Index cs sub)" by (simp add: Let_def nat_add_distrib)
        from Cons.IH(2) [OF this nn] Suc show ?thesis by simp
      qed
    qed }
qed

lemma occurrences_after_first:
  assumes "0 \<le> strings_Index s sub" and "sub \<noteq> []"
  shows "Suc (occurrences (drop (nat (strings_Index s sub) + length sub) s) sub) \<le> occurrences s sub"
proof -
  let ?i = "nat (strings_Index s sub)"
  from Index_first(1) [OF assms(1)] have pre: "prefix sub (drop ?i s)" .
  with assms(2) obtain c rest where dr: "drop ?i s = c # rest" by (cases "drop ?i s") auto
  from assms(2) obtain m where len: "length sub = Suc m" by (cases sub) auto
  have "drop (?i + length sub) s = drop m rest"
    using dr len by (metis add.commute drop_Suc_Cons drop_drop)
  then have "Suc (occurrences (drop (?i + length sub) s) sub) \<le> Suc (occurrences rest sub)"
    by (simp add: occurrences_drop_le)
  also have "\<dots> = occurrences (drop ?i s) sub" using pre dr by (simp add: occurrences_Cons)
  also have "\<dots> \<le> occurrences s sub" by (rule occurrences_drop_le)
  finally show ?thesis .
qed

lemma count_loop_ge: "n \<le> count_loop s sub n"
  by (induction s sub n rule: count_loop.induct)
     (subst count_loop.simps, auto simp: Let_def)

lemma count_loop_found:
  assumes "0 \<le> strings_Index s sub" and "sub \<noteq> []"
  shows "n + 1 \<le> count_loop s sub n"
  using assms count_loop_ge [of "n + 1" "drop (nat (strings_Index s sub) + length sub) s" sub]
  by (subst count_loop.simps) (auto simp: Let_def)

lemma count_loop_le:
  "sub \<noteq> [] \<Longrightarrow> count_loop s sub n \<le> n + int (occurrences s sub)"
proof (induction s sub n rule: count_loop.induct)
  case (1 s sub n)
  show ?case
  proof (cases "strings_Index s sub = - 1")
    case True
    then show ?thesis by (subst count_loop.simps) simp
  next
    case False
    with strings_Index_range [of s sub] have nn: "0 \<le> strings_Index s sub" by simp
    from "1.IH" [OF refl _ "1.prems"] False "1.prems"
    have "count_loop (drop (nat (strings_Index s sub) + length sub) s) sub (n + 1)
        \<le> n + 1 + int (occurrences (drop (nat (strings_Index s sub) + length sub) s) sub)"
      by simp
    also have "\<dots> \<le> n + int (occurrences s sub)"
      using occurrences_after_first [OF nn "1.prems"] by simp
    finally show ?thesis using False "1.prems" by (subst count_loop.simps) (simp add: Let_def)
  qed
qed

lemma count_list_occurrences: "count_list s c = occurrences s [c]"
  by (induction s) (auto simp: occurrences_Nil occurrences_Cons)

lemma RuneCount_le: "RuneCountInString s \<le> length s"
proof (induction s rule: RuneCountInString.induct)
  case (1 s)
  show ?case
  proof (cases "s = []")
    case True
    then show ?thesis by (subst RuneCountInString.simps) simp
  next
    case False
    from "1.IH" [OF False] rune_width_pos [OF False] rune_width_le [of s] False
    show ?thesis by (subst RuneCountInString.simps) simp
  qed
qed

lemma RuneCount_pos: "s \<noteq> [] \<Longrightarrow> 0 < RuneCountInString s"
  by (subst RuneCountInString.simps) simp

lemma Count_le_occurrences: "strings_Count s sub \<le> int (occurrences s sub)"
proof -
  consider "sub = []" | c where "sub = [c]" | "length sub \<noteq> 0" "length sub \<noteq> 1"
    by (cases sub; cases "tl sub") auto
  then show ?thesis
  proof cases
    case 1
    then show ?thesis using RuneCount_le [of s] by (simp add: strings_Count_def occurrences_empty)
  next
    case 2
    then show ?thesis by (simp add: strings_Count_def count_list_occurrences)
  next
    case 3
    then have "sub \<noteq> []" by auto
    from count_loop_le [OF this, of s 0] 3 show ?thesis by (simp add: strings_Count_def)
  qed
qed

lemma Count_pos:
  assumes "strings_Contains s sub"
  shows "1 \<le> strings_Count s sub"
proof -
  from assms have nn: "0 \<le> strings_Index s sub" by (simp add: strings_Contains_def)
  consider "sub = []" | c where "sub = [c]" | "length sub \<noteq> 0" "length sub \<noteq> 1"
    by (cases sub; cases "tl sub") auto
  then show ?thesis
  proof cases
    case 1
    then show ?thesis by (simp add: strings_Count_def)
  next
    case 2
    with nn show ?thesis
      by (simp add: strings_Count_def count_list_occurrences Index_nonneg_iff Suc_le_eq)
  next
    case 3
    then have "sub \<noteq> []" by auto
    from count_loop_found [OF nn this, of 0] 3 show ?thesis by (simp add: strings_Count_def)
  qed
qed

lemma occurrences_unique:
  assumes "occurrences s sub = 1"
    and "i \<le> length s" "prefix sub (drop i s)"
    and "j \<le> length s" "prefix sub (drop j s)"
  shows "i = j"
proof (rule ccontr)
  assume "i \<noteq> j"
  let ?S = "{i. i \<le> length s \<and> prefix sub (drop i s)}"
  have "finite ?S" by simp
  moreover have "{i, j} \<subseteq> ?S" using assms by simp
  ultimately have "card {i, j} \<le> card ?S" by (rule card_mono)
  with \<open>i \<noteq> j\<close> assms(1) show False by (simp add: occurrences_card)
qed

lemma Replace_unique:
  assumes "occurrences (pre @ old @ post) old = 1"
  shows "strings_Replace (pre @ old @ post) old new 1 = pre @ new @ post"
proof (cases "old = new")
  case True
  then show ?thesis by (simp add: strings_Replace_def)
next
  case False
  let ?s = "pre @ old @ post"
  from assms have nn: "0 \<le> strings_Index ?s old" by (simp add: Index_nonneg_iff)
  then have "1 \<le> strings_Count ?s old" by (intro Count_pos) (simp add: strings_Contains_def)
  moreover from Count_le_occurrences [of ?s old] assms have "strings_Count ?s old \<le> 1" by simp
  ultimately have m: "strings_Count ?s old = 1" by simp
  have "replace_loop ?s old new True (Suc 0) = pre @ new @ post"
  proof (cases "old = []")
    case True
    with assms show ?thesis by (simp add: occurrences_empty)
  next
    case ne: False
    have "nat (strings_Index ?s old) = length pre"
    proof (rule occurrences_unique [OF assms])
      from strings_Index_bound [OF nn] show "nat (strings_Index ?s old) \<le> length ?s" by simp
      from Index_first(1) [OF nn] show "prefix old (drop (nat (strings_Index ?s old)) ?s)" .
      show "length pre \<le> length ?s" by simp
      show "prefix old (drop (length pre) ?s)" by simp
    qed
    with ne show ?thesis by (simp add: Let_def)
  qed
  moreover have "strings_Replace ?s old new 1 = replace_loop ?s old new True (Suc 0)"
    using False m by (simp add: strings_Replace_def)
  ultimately show ?thesis by simp
qed

section \<open>One caller and the lock manager\<close>

lemma getLock_idle:
  assumes "\<not> mu (globalFileLockManager p)"
  shows "getLock p path = Done (lookup_or_create p (lock_key (getwd p) path))"
  using assms
  by (simp add: getLock_def bind_def Mutex_Lock_def Mutex_Unlock_def set_mu_def
      lookup_or_create_def Let_def split: option.splits)

lemma lookup_or_create_props:
  assumes "lookup_or_create p k = (l, p1)"
  shows "locks (globalFileLockManager p1) k = Some l"
    and "getwd p1 = getwd p" and "disk p1 = disk p"
    and "mu (globalFileLockManager p1) = mu (globalFileLockManager p)"
    and "locks (globalFileLockManager p) k = None \<Longrightarrow> \<not> heap p1 l"
    and "locks (globalFileLockManager p) k = Some l' \<Longrightarrow> l = l' \<and> p1 = p"
  using assms
  by (auto simp: lookup_or_create_def Let_def split: option.splits)

lemma Unlock_held:
  assumes "\<not> mu (globalFileLockManager p)"
    and "locks (globalFileLockManager p) (lock_key (getwd p) path) = Some l"
    and "heap p l"
  shows "Unlock p path = Done (p\<lparr>heap := (heap p)(l := False)\<rparr>)"
  using assms
  by (simp add: Unlock_def getLock_idle lookup_or_create_def bind_def Mutex_Unlock_def)

lemma Lock_idle:
  assumes "lock_idle p path" and "lookup_or_create p (lock_key (getwd p) path) = (l, p1)"
  shows "Lock p path = Done (p1\<lparr>heap := (heap p1)(l := True)\<rparr>)"
proof -
  from assms(1) have m: "\<not> mu (globalFileLockManager p)" by (simp add: lock_idle_def)
  have "\<not> heap p1 l"
  proof (cases "locks (globalFileLockManager p) (lock_key (getwd p) path)")
    case None
    with lookup_or_create_props(5) [OF assms(2)] show ?thesis .
  next
    case (Some l')
    with lookup_or_create_props(6) [OF assms(2), of l'] assms(1) show ?thesis
      by (simp add: lock_idle_def)
  qed
  then show ?thesis
    by (simp add: Lock_def getLock_idle [OF m] assms(2) bind_def Mutex_Lock_def)
qed

lemma WithLock_closure:
  assumes "lock_idle p path"
  shows "\<exists>p'. WithLock p path (closure body) = Done (Return (fst (body (disk p)), None), p')
           \<and> disk p' = snd (body (disk p)) \<and> lock_idle p' path \<and> getwd p' = getwd p"
proof -
  obtain l p1 where lc: "lookup_or_create p (lock_key (getwd p) path) = (l, p1)"
    by (cases "lookup_or_create p (lock_key (getwd p) path)")
  note props = lookup_or_create_props [OF lc]
  from assms have m: "\<not> mu (globalFileLockManager p)" by (simp add: lock_idle_def)
  define p2 where "p2 = p1\<lparr>heap := (heap p1)(l := True)\<rparr>"
  define p3 where "p3 = p2\<lparr>disk := snd (body (disk p))\<rparr>"
  have L: "Lock p path = Done p2"
    unfolding p2_def by (rule Lock_idle [OF assms lc])
  have C: "closure body p2 = Done (Return (fst (body (disk p)), None), p3)"
    by (simp add: closure_def p3_def p2_def props split: prod.splits)
  have U: "Unlock p3 path = Done (p3\<lparr>heap := (heap p3)(l := False)\<rparr>)"
    by (rule Unlock_held) (simp_all add: p3_def p2_def props m)
  have "WithLock p path (closure body)
      = Done (Return (fst (body (disk p)), None), p3\<lparr>heap := (heap p3)(l := False)\<rparr>)"
    by (simp add: WithLock_def L C U bind_def)
  moreover have "lock_idle (p3\<lparr>heap := (heap p3)(l := False)\<rparr>) path"
    by (simp add: lock_idle_def p3_def p2_def props m)
  ultimately show ?thesis
    by (intro exI [of _ "p3\<lparr>heap := (heap p3)(l := False)\<rparr>"]) (simp add: p3_def p2_def props)
qed

lemma EditFileTool_Execute_idle:
  assumes "as_string (args ''path'') = Some path"
    and "as_string (args ''old_text'') = Some oldText"
    and "as_string (args ''new_text'') = Some newText"
    and "vp path (fst t) (snd t) = Inr resolvedPath"
    and "lock_idle p resolvedPath"
  shows "\<exists>p'. EditFileTool_Execute vp t args p
             = Done (Return (fst (edit_locked path resolvedPath oldText newText (disk p))), p')
           \<and> disk p' = snd (edit_locked path resolvedPath oldText newText (disk p))
           \<and> lock_idle p' resolvedPath"
proof -
  from WithLock_closure [OF assms(5), of "edit_locked path resolvedPath oldText newText"]
  obtain p' where
    "WithLock p resolvedPath (closure (edit_locked path resolvedPath oldText newText))
       = Done (Return (fst (edit_locked path resolvedPath oldText newText (disk p)), None), p')"
    and "disk p' = snd (edit_locked path resolvedPath oldText newText (disk p))"
    and "lock_idle p' resolvedPath"
    by blast
  then show ?thesis
    using assms(1-4) by (simp add: EditFileTool_Execute_def after_lock_def bind_def)
qed

lemma AppendFileTool_Execute_idle:
  assumes "as_string (args ''path'') = Some path"
    and "as_string (args ''content'') = Some content"
    and "vp path (fst t) (snd t) = Inr resolvedPath"
    and "lock_idle p resolvedPath"
  shows "\<exists>p'. AppendFileTool_Execute vp t args p
             = Done (Return (fst (append_locked path resolvedPath content (disk p))), p')
           \<and> disk p' = snd (append_locked path resolvedPath content (disk p))
           \<and> lock_idle p' resolvedPath"
proof -
  from WithLock_closure [OF assms(4), of "append_locked path resolvedPath content"]
  obtain p' where
    "WithLock p resolvedPath (closure (append_locked path resolvedPath content))
       = Done (Return (fst (append_locked path resolvedPath content (disk p)), None), p')"
    and "disk p' = snd (append_locked path resolvedPath content (disk p))"
    and "lock_idle p' resolvedPath"
    by blast
  then show ?thesis
    using assms(1-3) by (simp add: AppendFileTool_Execute_def after_lock_def bind_def)
qed

lemma os_Stat_missing:
  "os_IsNotExist (os_Stat fs name) \<longleftrightarrow> nodes fs name = None \<and> lookup_error fs name = ENOENT"
  by (simp add: os_Stat_def split: option.splits)


lemma edit_locked_no_way:
  "nodes fs rp = None \<Longrightarrow> lookup_error fs rp \<noteq> ENOENT
     \<Longrightarrow> edit_locked path rp oldText newText fs
         = (ErrorResult (''failed to read file: ''
              @ Error (PathError ''open'' rp (lookup_error fs rp))), fs)"
  by (simp add: edit_locked_def os_Stat_missing os_ReadFile_def)

lemma edit_locked_readable:
  assumes "nodes fs rp = Some (File c True w)"
  shows "edit_locked path rp oldText newText fs =
     (if \<not> strings_Contains c oldText then (ContentNotFound, fs)
      else if strings_Count c oldText > 1 then (AmbiguousMatch (strings_Count c oldText), fs)
      else case os_WriteFile fs rp (strings_Replace c oldText newText 1) of
             (Some err, fs') \<Rightarrow> (ErrorResult (''failed to write file: '' @ Error err), fs')
           | (None, fs') \<Rightarrow> (SilentResult (''File edited: '' @ path), fs'))"
  using assms
  by (simp add: edit_locked_def os_Stat_def os_ReadFile_def ContentNotFound_def
      AmbiguousMatch_def Let_def)

lemma os_WriteFile_ok:
  assumes "nodes fs rp = Some (File c r True)" and "length data \<le> free fs + length c"
  shows "os_WriteFile fs rp data =
     (None, fs\<lparr>nodes := (nodes fs)(rp \<mapsto> File data r True),
               free := free fs + length c - length data\<rparr>)"
  using assms by (simp add: os_WriteFile_def open_write_def write_end_def)

section \<open>The edit tool\<close>

lemma example_idle: "lock_idle example_process path"
  by (simp add: lock_idle_def example_process_def newFileLockManager_def)

lemma edit_args_simps:
  "as_string (edit_args path oldText newText ''path'') = Some path"
  "as_string (edit_args path oldText newText ''old_text'') = Some oldText"
  "as_string (edit_args path oldText newText ''new_text'') = Some newText"
  by (simp_all add: edit_args_def)

lemma append_args_simps:
  "as_string (append_args path content ''path'') = Some path"
  "as_string (append_args path content ''content'') = Some content"
  by (simp_all add: append_args_def)

lemma example_lookup:
  "nodes (disk example_process) ''/w/none.txt'' = None"
  "lookup_error (disk example_process) ''/w/none.txt'' = ENOENT"
  "nodes (disk example_process) ''/w/notes.txt/child'' = None"
  "lookup_error (disk example_process) ''/w/notes.txt/child'' = ENOTDIR"
  "nodes (disk example_process) ''/w/locked/in.txt'' = None"
  "lookup_error (disk example_process) ''/w/locked/in.txt'' = EACCES"
  "nodes (disk example_process) ''/w/sub/deep.txt'' = None"
  "lookup_error (disk example_process) ''/w/sub/deep.txt'' = ENOENT"
  by code_simp+



text \<open>
  Where the kernel has another answer for the missing file, \<open>os.IsNotExist\<close> is false
  and the edit goes on to \<open>os.ReadFile\<close>, which fails with that answer: the edit is
  refused as a failure to read, and again the file system stays as it was. So it is for a
  path below a regular file and for a path in a directory that may not be searched.
\<close>

lemma edit_no_way_to_file:
  assumes "as_string (args ''path'') = Some path"
    and "as_string (args ''old_text'') = Some oldText"
    and "as_string (args ''new_text'') = Some newText"
    and "vp path (fst t) (snd t) = Inr resolvedPath"
    and "lock_idle p resolvedPath"
    and "nodes (disk p) resolvedPath = None"
    and "lookup_error (disk p) resolvedPath \<noteq> ENOENT"
  shows "\<exists>p'. EditFileTool_Execute vp t args p
             = Done (Return (ErrorResult (''failed to read file: open '' @ resolvedPath @ '': ''
                       @ errno_Error (lookup_error (disk p) resolvedPath))), p')
           \<and> disk p' = disk p"
  using EditFileTool_Execute_idle
      [where args = args and vp = vp and t = t and p = p and path = path
         and oldText = oldText and newText = newText and resolvedPath = resolvedPath]
    assms(1-5) edit_locked_no_way [OF assms(6,7)]
  by auto

lemma edit_below_a_file:
  "(\<exists>p'. EditFileTool_Execute accept_path (''/w'', True)
            (edit_args ''/w/notes.txt/child'' ''old'' ''new'') example_process
          = Done (Return (ErrorResult
              ''failed to read file: open /w/notes.txt/child: not a directory''), p')
        \<and> disk p' = disk example_process) \<and>
   (\<exists>p'. EditFileTool_Execute accept_path (''/w'', True)
            (edit_args ''/w/locked/in.txt'' ''old'' ''new'') example_process
          = Done (Return (ErrorResult
              ''failed to read file: open /w/locked/in.txt: permission denied''), p')
        \<and> disk p' = disk example_process)"
proof -
  have v: "accept_path path (fst (''/w'', True)) (snd (''/w'', True)) = Inr path" for path
    by (simp add: accept_path_def)
  from edit_no_way_to_file
      [where args = "edit_args ''/w/notes.txt/child'' ''old'' ''new''" and vp = accept_path
         and t = "(''/w'', True)" and p = example_process and path = "''/w/notes.txt/child''"
         and oldText = "''old''" and newText = "''new''"
         and resolvedPath = "''/w/notes.txt/child''",
       OF edit_args_simps v example_idle example_lookup(3)]
  have 1: "\<exists>p'. EditFileTool_Execute accept_path (''/w'', True)
            (edit_args ''/w/notes.txt/child'' ''old'' ''new'') example_process
          = Done (Return (ErrorResult
              ''failed to read file: open /w/notes.txt/child: not a directory''), p')
        \<and> disk p' = disk example_process"
    by (simp add: example_lookup(4))
  from edit_no_way_to_file
      [where args = "edit_args ''/w/locked/in.txt'' ''old'' ''new''" and vp = accept_path
         and t = "(''/w'', True)" and p = example_process and path = "''/w/locked/in.txt''"
         and oldText = "''old''" and newText = "''new''"
         and resolvedPath = "''/w/locked/in.txt''",
       OF edit_args_simps v example_idle example_lookup(5)]
  have 2: "\<exists>p'. EditFileTool_Execute accept_path (''/w'', True)
            (edit_args ''/w/locked/in.txt'' ''old'' ''new'') example_process
          = Done (Return (ErrorResult
              ''failed to read file: open /w/locked/in.txt: permission denied''), p')
        \<and> disk p' = disk example_process"
    by (simp add: example_lookup(6))
  from 1 2 show ?thesis by blast
qed

text \<open>
  C3. When \<open>oldText\<close> occurs exactly once in a readable and writable file, and the
  device has room for the new content, the edit succeeds with a silent result: the file
  consists of what stood before the occurrence, \<open>newText\<close>, and what stood behind it,
  and no other path of the file system changes.
\<close>

theorem edit_unique_occurrence:
  assumes "as_string (args ''path'') = Some path"
    and "as_string (args ''old_text'') = Some oldText"
    and "as_string (args ''new_text'') = Some newText"
    and "vp path (fst t) (snd t) = Inr resolvedPath"
    and "lock_idle p resolvedPath"
    and "nodes (disk p) resolvedPath = Some (File (pre @ oldText @ post) True True)"
    and "occurrences (pre @ oldText @ post) oldText = 1"
    and "length (pre @ newText @ post) \<le> free (disk p) + length (pre @ oldText @ post)"
  shows "\<exists>p'. EditFileTool_Execute vp t args p
             = Done (Return (SilentResult (''File edited: '' @ path)), p')
           \<and> file_content (disk p') resolvedPath = Some (pre @ newText @ post)
           \<and> (\<forall>other. other \<noteq> resolvedPath \<longrightarrow> nodes (disk p') other = nodes (disk p) other)"
proof -
  let ?c = "pre @ oldText @ post"
  from assms(7) have "strings_Contains ?c oldText"
    by (simp add: strings_Contains_def Index_nonneg_iff)
  moreover from Count_le_occurrences [of ?c oldText] assms(7)
  have "\<not> 1 < strings_Count ?c oldText" by simp
  moreover note Replace_unique [OF assms(7), of newText]
    os_WriteFile_ok [OF assms(6), of "pre @ newText @ post"] assms(8)
  ultimately have "edit_locked path resolvedPath oldText newText (disk p) =
      (SilentResult (''File edited: '' @ path),
       (disk p)\<lparr>nodes := (nodes (disk p))(resolvedPath \<mapsto> File (pre @ newText @ post) True True),
                free := free (disk p) + length ?c - length (pre @ newText @ post)\<rparr>)"
    by (simp add: edit_locked_readable [OF assms(6)])
  with EditFileTool_Execute_idle
      [where args = args and vp = vp and t = t and p = p and path = path
         and oldText = oldText and newText = newText and resolvedPath = resolvedPath]
    assms(1-5)
  show ?thesis
    by (auto simp: file_content_def)
qed

theorem edit_unique_occurrence_witness:
  "occurrences ''Hello World\<newline>This is a test'' ''World'' = 1 \<and>
   (\<exists>p'. EditFileTool_Execute accept_path (''/w'', True)
            (edit_args ''/w/notes.txt'' ''World'' ''Universe'') example_process
          = Done (Return (SilentResult ''File edited: /w/notes.txt''), p')
        \<and> file_content (disk p') ''/w/notes.txt'' = Some ''Hello Universe\<newline>This is a test''
        \<and> nodes (disk p') ''/w/aaa.txt'' = Some (File ''aaa'' True True))"
proof -
  have o: "occurrences (''Hello '' @ ''World'' @ ''\<newline>This is a test'') ''World'' = 1"
    by (simp add: occurrences_Cons occurrences_Nil)
  have n: "nodes (disk example_process) ''/w/notes.txt''
      = Some (File (''Hello '' @ ''World'' @ ''\<newline>This is a test'') True True)"
    by (simp add: example_process_def example_disk_def)
  have a: "nodes (disk example_process) ''/w/aaa.txt'' = Some (File ''aaa'' True True)"
    by (simp add: example_process_def example_disk_def)
  have v: "accept_path ''/w/notes.txt'' (fst (''/w'', True)) (snd (''/w'', True)) = Inr ''/w/notes.txt''"
    by (simp add: accept_path_def)
  have f: "length (''Hello '' @ ''Universe'' @ ''\<newline>This is a test'')
      \<le> free (disk example_process) + length (''Hello '' @ ''World'' @ ''\<newline>This is a test'')"
    by (simp add: example_process_def example_disk_def)
  from edit_unique_occurrence
      [where args = "edit_args ''/w/notes.txt'' ''World'' ''Universe''" and vp = accept_path
         and t = "(''/w'', True)" and p = example_process and path = "''/w/notes.txt''"
         and oldText = "''World''" and newText = "''Universe''"
         and resolvedPath = "''/w/notes.txt''" and pre = "''Hello ''"
         and post = "''\<newline>This is a test''",
       OF edit_args_simps v example_idle n o f] o a
  show ?thesis by auto
qed

lemma result_distinct [simp]:
  "ErrorResult m \<noteq> SilentResult m'" "SilentResult m' \<noteq> ErrorResult m"
  "ErrorResult m = ErrorResult m' \<longleftrightarrow> m = m'"
  "SilentResult m = SilentResult m' \<longleftrightarrow> m = m'"
  by (auto simp: ErrorResult_def SilentResult_def)

lemma edit_refusals:
  assumes "as_string (args ''path'') = Some path"
    and "as_string (args ''old_text'') = Some oldText"
    and "as_string (args ''new_text'') = Some newText"
    and "vp path (fst t) (snd t) = Inr resolvedPath"
    and "lock_idle p resolvedPath"
    and "nodes (disk p) resolvedPath = Some (File c True w)"
  shows "\<exists>p' r. EditFileTool_Execute vp t args p = Done (Return r, p')
           \<and> (r = ContentNotFound \<longleftrightarrow> occurrences c oldText = 0)
           \<and> ((\<exists>n. r = AmbiguousMatch n) \<longleftrightarrow> 2 \<le> strings_Count c oldText)
           \<and> (r = ContentNotFound \<or> (\<exists>n. r = AmbiguousMatch n) \<longrightarrow> disk p' = disk p)
           \<and> ((\<exists>n. r = AmbiguousMatch n) \<longrightarrow> 2 \<le> occurrences c oldText)"
proof -
  let ?e = "edit_locked path resolvedPath oldText newText (disk p)"
  from EditFileTool_Execute_idle
      [where args = args and vp = vp and t = t and p = p and path = path
         and oldText = oldText and newText = newText and resolvedPath = resolvedPath]
    assms(1-5)
  obtain p' where ex: "EditFileTool_Execute vp t args p = Done (Return (fst ?e), p')"
    and d: "disk p' = snd ?e" by blast
  have c0: "strings_Contains c oldText \<longleftrightarrow> occurrences c oldText \<noteq> 0"
    by (simp add: strings_Contains_def Index_nonneg_iff)
  have c2: "2 \<le> strings_Count c oldText \<Longrightarrow> 2 \<le> occurrences c oldText"
    using Count_le_occurrences [of c oldText] by simp
  have c1: "2 \<le> strings_Count c oldText \<Longrightarrow> strings_Contains c oldText"
    using c2 c0 by auto
  have "(fst ?e = ContentNotFound \<longleftrightarrow> occurrences c oldText = 0)
      \<and> ((\<exists>n. fst ?e = AmbiguousMatch n) \<longleftrightarrow> 2 \<le> strings_Count c oldText)
      \<and> (fst ?e = ContentNotFound \<or> (\<exists>n. fst ?e = AmbiguousMatch n) \<longrightarrow> snd ?e = disk p)"
    using c0 c1
    by (auto simp: edit_locked_readable [OF assms(6)] ContentNotFound_def AmbiguousMatch_def
        split: prod.splits option.splits)
  with ex d c2 show ?thesis by auto
qed


text \<open>
  Three separate occurrences are counted as three: the edit is refused with the count in
  the message and the file is left as it was.
\<close>

lemma edit_three_tests:
  "\<exists>p'. EditFileTool_Execute accept_path (''/w'', True)
            (edit_args ''/w/tests.txt'' ''test'' ''done'') example_process
          = Done (Return (ErrorResult
              ''old_text appears 3 times. Please provide more context to make it unique''), p')
        \<and> disk p' = disk example_process"
proof -
  have n: "nodes (disk example_process) ''/w/tests.txt''
      = Some (File ''test test test'' True True)"
    by (simp add: example_process_def example_disk_def)
  have v: "accept_path ''/w/tests.txt'' (fst (''/w'', True)) (snd (''/w'', True))
      = Inr ''/w/tests.txt''"
    by (simp add: accept_path_def)
  have c: "strings_Count ''test test test'' ''test'' = 3"
    "strings_Contains ''test test test'' ''test''"
    by code_simp+
  have m: "AmbiguousMatch 3 = ErrorResult
      ''old_text appears 3 times. Please provide more context to make it unique''"
    by (simp add: AmbiguousMatch_def fmt_d_def decimal.simps digit_char_def)
  have e: "edit_locked ''/w/tests.txt'' ''/w/tests.txt'' ''test'' ''done'' (disk example_process)
      = (ErrorResult ''old_text appears 3 times. Please provide more context to make it unique'',
         disk example_process)"
    by (simp add: edit_locked_readable [OF n] c m)
  from EditFileTool_Execute_idle
      [where args = "edit_args ''/w/tests.txt'' ''test'' ''done''" and vp = accept_path
         and t = "(''/w'', True)" and p = example_process
         and path = "''/w/tests.txt''" and oldText = "''test''" and newText = "''done''"
         and resolvedPath = "''/w/tests.txt''",
       OF edit_args_simps v example_idle]
  show ?thesis
    unfolding e by auto
qed

text \<open>
  C2. The refusal of an ambiguous edit misses occurrences that overlap. In a file
  \<open>aaa\<close> the text \<open>aa\<close> occurs twice, at the offsets 0 and 1, but \<open>strings.Count\<close>
  counts instances that do not overlap and returns 1: the edit is not refused, the
  occurrence at offset 0 is replaced and the file becomes \<open>ba\<close>. (\<open>edit_refusals\<close>
  above has what does hold: the text-not-found error exactly for no occurrence, the
  ambiguity error exactly for a count of 2 or more, and an unchanged disk in both cases.)
\<close>

theorem edit_overlapping_occurrences:
  "occurrences ''aaa'' ''aa'' = 2 \<and>
   (\<exists>p'. EditFileTool_Execute accept_path (''/w'', True)
            (edit_args ''/w/aaa.txt'' ''aa'' ''b'') example_process
          = Done (Return (SilentResult ''File edited: /w/aaa.txt''), p')
        \<and> file_content (disk p') ''/w/aaa.txt'' = Some ''ba'')"
proof -
  have o: "occurrences ''aaa'' ''aa'' = 2"
    by (simp add: occurrences_Cons occurrences_Nil)
  have n: "nodes (disk example_process) ''/w/aaa.txt'' = Some (File ''aaa'' True True)"
    by (simp add: example_process_def example_disk_def)
  have i: "strings_Index ''aaa'' ''aa'' = 0" "strings_Index ''a'' ''aa'' = - 1"
    by simp_all
  have c: "strings_Count ''aaa'' ''aa'' = 1"
    by (simp add: strings_Count_def count_loop.simps [of "''aaa''"] count_loop.simps [of "''a''"] i)
  have r: "strings_Replace ''aaa'' ''aa'' ''b'' 1 = ''ba''"
    by (simp add: strings_Replace_def c)
  have w: "os_WriteFile (disk example_process) ''/w/aaa.txt'' ''ba''
      = (None, (disk example_process)
           \<lparr>nodes := (nodes (disk example_process))(''/w/aaa.txt'' \<mapsto> File ''ba'' True True),
            free := free (disk example_process) + length ''aaa'' - length ''ba''\<rparr>)"
    by (rule os_WriteFile_ok [OF n]) simp
  have e: "edit_locked ''/w/aaa.txt'' ''/w/aaa.txt'' ''aa'' ''b'' (disk example_process)
      = (SilentResult ''File edited: /w/aaa.txt'', (disk example_process)
           \<lparr>nodes := (nodes (disk example_process))(''/w/aaa.txt'' \<mapsto> File ''ba'' True True),
            free := free (disk example_process) + length ''aaa'' - length ''ba''\<rparr>)"
    by (simp add: edit_locked_readable [OF n] strings_Contains_def i c r w)
  have v: "accept_path ''/w/aaa.txt'' (fst (''/w'', True)) (snd (''/w'', True)) = Inr ''/w/aaa.txt''"
    by (simp add: accept_path_def)
  from EditFileTool_Execute_idle
      [where args = "edit_args ''/w/aaa.txt'' ''aa'' ''b''" and vp = accept_path
         and t = "(''/w'', True)" and p = example_process and path = "''/w/aaa.txt''"
         and oldText = "''aa''" and newText = "''b''" and resolvedPath = "''/w/aaa.txt''",
       OF edit_args_simps v example_idle]
  obtain p' where "EditFileTool_Execute accept_path (''/w'', True)
            (edit_args ''/w/aaa.txt'' ''aa'' ''b'') example_process
          = Done (Return (SilentResult ''File edited: /w/aaa.txt''), p')"
    and "disk p' = (disk example_process)
           \<lparr>nodes := (nodes (disk example_process))(''/w/aaa.txt'' \<mapsto> File ''ba'' True True),
            free := free (disk example_process) + length ''aaa'' - length ''ba''\<rparr>"
    unfolding e by auto
  with o show ?thesis by (auto simp: file_content_def)
qed

section \<open>The edit tool with an empty \<open>old_text\<close>\<close>

lemma Count_empty: "strings_Count c [] = int (RuneCountInString c) + 1"
  by (simp add: strings_Count_def)

lemma Contains_empty: "strings_Contains c []"
  by (cases c) (simp_all add: strings_Contains_def)

lemma Replace_empty_into_empty: "strings_Replace [] [] newText 1 = newText"
  by (simp add: strings_Replace_def Count_empty RuneCountInString.simps [of "[]"])

text \<open>
  C10. With an empty \<open>old_text\<close> and a readable file, the edit never answers that the
  text was not found. On a non-empty file it is refused as ambiguous, the count reported
  being the number of runes of the file plus one, which is at least 2, and the disk
  stays as it was. On an empty file (writable, with room for \<open>new_text\<close>) it succeeds
  and the file then holds exactly \<open>new_text\<close>.
\<close>

theorem edit_empty_old_text:
  assumes "as_string (args ''path'') = Some path"
    and "as_string (args ''old_text'') = Some []"
    and "as_string (args ''new_text'') = Some newText"
    and "vp path (fst t) (snd t) = Inr resolvedPath"
    and "lock_idle p resolvedPath"
    and "nodes (disk p) resolvedPath = Some (File c True w)"
  shows "\<exists>p' r. EditFileTool_Execute vp t args p = Done (Return r, p')
           \<and> r \<noteq> ContentNotFound
           \<and> (c \<noteq> [] \<longrightarrow>
                r = AmbiguousMatch (int (RuneCountInString c) + 1)
                \<and> 2 \<le> int (RuneCountInString c) + 1
                \<and> disk p' = disk p)
           \<and> (c = [] \<and> w \<and> length newText \<le> free (disk p) \<longrightarrow>
                r = SilentResult (''File edited: '' @ path)
                \<and> file_content (disk p') resolvedPath = Some newText)"
proof -
  let ?e = "edit_locked path resolvedPath [] newText (disk p)"
  from EditFileTool_Execute_idle
      [where args = args and vp = vp and t = t and p = p and path = path
         and oldText = "[]" and newText = newText and resolvedPath = resolvedPath]
    assms(1-5)
  obtain p' where ex: "EditFileTool_Execute vp t args p = Done (Return (fst ?e), p')"
    and d: "disk p' = snd ?e" by blast
  have ne: "fst ?e \<noteq> ContentNotFound"
    by (auto simp: edit_locked_readable [OF assms(6)] Contains_empty ContentNotFound_def
        AmbiguousMatch_def split: prod.splits option.splits)
  have amb: "?e = (AmbiguousMatch (int (RuneCountInString c) + 1), disk p)"
    and two: "2 \<le> int (RuneCountInString c) + 1" if "c \<noteq> []"
    using RuneCount_pos [OF that]
    by (simp_all add: edit_locked_readable [OF assms(6)] Contains_empty Count_empty)
  have ok: "fst ?e = SilentResult (''File edited: '' @ path)
      \<and> file_content (snd ?e) resolvedPath = Some newText"
    if "c = []" "w" "length newText \<le> free (disk p)"
  proof -
    from assms(6) that have n: "nodes (disk p) resolvedPath = Some (File [] True True)" by simp
    from that have "length newText \<le> free (disk p) + length ([] :: string)" by simp
    from os_WriteFile_ok [OF n this] show ?thesis
      by (simp add: edit_locked_readable [OF n] Contains_empty Count_empty
          RuneCountInString.simps [of "[]"] Replace_empty_into_empty file_content_def)
  qed
  from ex d ne amb two ok show ?thesis by auto
qed


theorem edit_empty_old_text_witness:
  "(\<exists>p'. EditFileTool_Execute accept_path (''/w'', True)
            (edit_args ''/w/aaa.txt'' [] ''x'') example_process
          = Done (Return (ErrorResult
              ''old_text appears 4 times. Please provide more context to make it unique''), p')
        \<and> disk p' = disk example_process) \<and>
   (\<exists>p'. EditFileTool_Execute accept_path (''/w'', True)
            (edit_args ''/w/empty.txt'' [] ''hello'') example_process
          = Done (Return (SilentResult ''File edited: /w/empty.txt''), p')
        \<and> file_content (disk p') ''/w/empty.txt'' = Some ''hello'')"
proof -
  have n1: "nodes (disk example_process) ''/w/aaa.txt'' = Some (File ''aaa'' True True)"
    and n2: "nodes (disk example_process) ''/w/empty.txt'' = Some (File [] True True)"
    and f: "length ''hello'' \<le> free (disk example_process)"
    by (simp_all add: example_process_def example_disk_def)
  have v1: "accept_path ''/w/aaa.txt'' (fst (''/w'', True)) (snd (''/w'', True)) = Inr ''/w/aaa.txt''"
    and v2: "accept_path ''/w/empty.txt'' (fst (''/w'', True)) (snd (''/w'', True)) = Inr ''/w/empty.txt''"
    by (simp_all add: accept_path_def)
  have rc: "RuneCountInString ''aaa'' = 3"
    by code_simp
  have m: "AmbiguousMatch 4 = ErrorResult
      ''old_text appears 4 times. Please provide more context to make it unique''"
    by (simp add: AmbiguousMatch_def fmt_d_def decimal.simps digit_char_def)
  note a = edit_empty_old_text
      [where args = "edit_args ''/w/aaa.txt'' [] ''x''" and vp = accept_path
         and t = "(''/w'', True)" and p = example_process and path = "''/w/aaa.txt''"
         and newText = "''x''" and resolvedPath = "''/w/aaa.txt''" and c = "''aaa''" and w = True,
       OF edit_args_simps v1 example_idle n1]
  note b = edit_empty_old_text
      [where args = "edit_args ''/w/empty.txt'' [] ''hello''" and vp = accept_path
         and t = "(''/w'', True)" and p = example_process and path = "''/w/empty.txt''"
         and newText = "''hello''" and resolvedPath = "''/w/empty.txt''" and c = "[]" and w = True,
       OF edit_args_simps v2 example_idle n2]
  from a rc m have "\<exists>p'. EditFileTool_Execute accept_path (''/w'', True)
            (edit_args ''/w/aaa.txt'' [] ''x'') example_process
          = Done (Return (ErrorResult
              ''old_text appears 4 times. Please provide more context to make it unique''), p')
        \<and> disk p' = disk example_process"
    by auto
  moreover from b f have "\<exists>p'. EditFileTool_Execute accept_path (''/w'', True)
            (edit_args ''/w/empty.txt'' [] ''hello'') example_process
          = Done (Return (SilentResult ''File edited: /w/empty.txt''), p')
        \<and> file_content (disk p') ''/w/empty.txt'' = Some ''hello''"
    by auto
  ultimately show ?thesis by blast
qed

section \<open>The append tool\<close>

lemma append_locked_cases:
  "append_locked path rp content fs =
     (case open_write False fs rp of
        Inl err \<Rightarrow> (ErrorResult (''failed to open file: '' @ Error err), fs)
      | Inr fs1 \<Rightarrow>
          if length content \<le> free fs
          then (SilentResult (''Appended to '' @ path),
                fs1\<lparr>nodes := (nodes fs1)(rp \<mapsto>
                       File ((case file_content fs rp of None \<Rightarrow> [] | Some prior \<Rightarrow> prior) @ content)
                         (case nodes fs rp of Some (File b r w) \<Rightarrow> r | _ \<Rightarrow> True) True),
                     free := free fs - length content\<rparr>)
          else (ErrorResult (''failed to append to file: '' @ Error (PathError ''write'' rp ENOSPC)),
                snd (write_end fs1 rp content)))"
  by (auto simp: append_locked_def open_write_def write_end_def file_content_def
      split: option.splits node.splits sum.splits)

text \<open>
  C4. Appending succeeds exactly when the file can be opened for writing (it is a
  writable file, or it is missing and can be created) and the device has room for the
  content. After a success the file holds what it held before (nothing, if it was
  missing) followed by the content and nothing else, and no other path changes; a
  missing file that can be created exists afterwards. For an empty content the room is
  always there: it is appended like any other.
\<close>

theorem append_file:
  assumes "as_string (args ''path'') = Some path"
    and "as_string (args ''content'') = Some content"
    and "vp path (fst t) (snd t) = Inr resolvedPath"
    and "lock_idle p resolvedPath"
  shows "\<exists>p' r. AppendFileTool_Execute vp t args p = Done (Return r, p')
           \<and> (\<not> IsError r \<longleftrightarrow>
                (\<exists>fs1. open_write False (disk p) resolvedPath = Inr fs1)
                \<and> length content \<le> free (disk p))
           \<and> (\<not> IsError r \<longrightarrow>
                r = SilentResult (''Appended to '' @ path)
                \<and> file_content (disk p') resolvedPath
                    = Some ((case file_content (disk p) resolvedPath of
                               None \<Rightarrow> [] | Some prior \<Rightarrow> prior) @ content)
                \<and> (\<forall>other. other \<noteq> resolvedPath \<longrightarrow>
                      nodes (disk p') other = nodes (disk p) other))
           \<and> (nodes (disk p) resolvedPath = None \<and> may_create (disk p) resolvedPath \<longrightarrow>
                nodes (disk p') resolvedPath \<noteq> None)"
proof -
  let ?a = "append_locked path resolvedPath content (disk p)"
  from AppendFileTool_Execute_idle
      [where args = args and vp = vp and t = t and p = p and path = path
         and content = content and resolvedPath = resolvedPath]
    assms
  obtain p' where ex: "AppendFileTool_Execute vp t args p = Done (Return (fst ?a), p')"
    and d: "disk p' = snd ?a" by blast
  have 1: "\<not> IsError (fst ?a) \<longleftrightarrow>
      (\<exists>fs1. open_write False (disk p) resolvedPath = Inr fs1) \<and> length content \<le> free (disk p)"
    by (auto simp: append_locked_cases ErrorResult_def SilentResult_def split: sum.splits)
  have 2: "fst ?a = SilentResult (''Appended to '' @ path)
      \<and> file_content (snd ?a) resolvedPath
          = Some ((case file_content (disk p) resolvedPath of
                     None \<Rightarrow> [] | Some prior \<Rightarrow> prior) @ content)
      \<and> (\<forall>other. other \<noteq> resolvedPath \<longrightarrow> nodes (snd ?a) other = nodes (disk p) other)"
    if "\<not> IsError (fst ?a)"
    using that
    by (auto simp: append_locked_cases ErrorResult_def file_content_def open_write_def
        split: sum.splits option.splits node.splits if_splits)
  have 3: "nodes (snd ?a) resolvedPath \<noteq> None"
    if "nodes (disk p) resolvedPath = None" "may_create (disk p) resolvedPath"
    using that
    by (auto simp: append_locked_cases open_write_def write_end_def split: sum.splits)
  from ex d 1 2 3 show ?thesis by auto
qed


theorem append_file_witness:
  "(\<exists>p'. AppendFileTool_Execute accept_path ([], False)
            (append_args ''/w/notes.txt'' ''\<newline>Appended content'') example_process
          = Done (Return (SilentResult ''Appended to /w/notes.txt''), p')
        \<and> file_content (disk p') ''/w/notes.txt''
            = Some ''Hello World\<newline>This is a test\<newline>Appended content'') \<and>
   (\<exists>p'. AppendFileTool_Execute accept_path ([], False)
            (append_args ''/w/new.txt'' ''Line 0\<newline>'') example_process
          = Done (Return (SilentResult ''Appended to /w/new.txt''), p')
        \<and> file_content (disk p') ''/w/new.txt'' = Some ''Line 0\<newline>'') \<and>
   (\<exists>p'. AppendFileTool_Execute accept_path ([], False)
            (append_args ''/w/aaa.txt'' []) example_process
          = Done (Return (SilentResult ''Appended to /w/aaa.txt''), p')
        \<and> file_content (disk p') ''/w/aaa.txt'' = Some ''aaa'')"
proof -
  have o: "open_write False (disk example_process) ''/w/notes.txt'' = Inr (disk example_process)"
    "open_write False (disk example_process) ''/w/aaa.txt'' = Inr (disk example_process)"
    "\<exists>fs1. open_write False (disk example_process) ''/w/new.txt'' = Inr fs1"
    by (simp_all add: open_write_def example_process_def example_disk_def)
  have c: "file_content (disk example_process) ''/w/notes.txt''
        = Some ''Hello World\<newline>This is a test''"
    "file_content (disk example_process) ''/w/aaa.txt'' = Some ''aaa''"
    "file_content (disk example_process) ''/w/new.txt'' = None"
    by (simp_all add: file_content_def example_process_def example_disk_def)
  have f: "free (disk example_process) = 4096"
    by (simp add: example_process_def example_disk_def)
  have v: "accept_path path (fst ([], False)) (snd ([], False)) = Inr path" for path
    by (simp add: accept_path_def)
  note a = append_file
      [where args = "append_args ''/w/notes.txt'' ''\<newline>Appended content''" and vp = accept_path
         and t = "([], False)" and p = example_process and path = "''/w/notes.txt''"
         and content = "''\<newline>Appended content''" and resolvedPath = "''/w/notes.txt''",
       OF append_args_simps v example_idle]
  note b = append_file
      [where args = "append_args ''/w/new.txt'' ''Line 0\<newline>''" and vp = accept_path
         and t = "([], False)" and p = example_process and path = "''/w/new.txt''"
         and content = "''Line 0\<newline>''" and resolvedPath = "''/w/new.txt''",
       OF append_args_simps v example_idle]
  note e = append_file
      [where args = "append_args ''/w/aaa.txt'' []" and vp = accept_path
         and t = "([], False)" and p = example_process and path = "''/w/aaa.txt''"
         and content = "[]" and resolvedPath = "''/w/aaa.txt''",
       OF append_args_simps v example_idle]
  from a o(1) c(1) f have "\<exists>p'. AppendFileTool_Execute accept_path ([], False)
            (append_args ''/w/notes.txt'' ''\<newline>Appended content'') example_process
          = Done (Return (SilentResult ''Appended to /w/notes.txt''), p')
        \<and> file_content (disk p') ''/w/notes.txt''
            = Some ''Hello World\<newline>This is a test\<newline>Appended content''"
    by auto
  moreover from b o(3) c(3) f have "\<exists>p'. AppendFileTool_Execute accept_path ([], False)
            (append_args ''/w/new.txt'' ''Line 0\<newline>'') example_process
          = Done (Return (SilentResult ''Appended to /w/new.txt''), p')
        \<and> file_content (disk p') ''/w/new.txt'' = Some ''Line 0\<newline>''"
    by auto
  moreover from e o(2) c(2) f have "\<exists>p'. AppendFileTool_Execute accept_path ([], False)
            (append_args ''/w/aaa.txt'' []) example_process
          = Done (Return (SilentResult ''Appended to /w/aaa.txt''), p')
        \<and> file_content (disk p') ''/w/aaa.txt'' = Some ''aaa''"
    by auto
  ultimately show ?thesis by blast
qed

section \<open>Cleaned paths stay clean\<close>

lemma split_sep_not_Nil: "split_sep s \<noteq> []"
  by (induction s) (auto split: list.splits)

lemma split_sep_no_slash: "e \<in> set (split_sep s) \<Longrightarrow> CHR ''/'' \<notin> set e"
proof (induction s arbitrary: e)
  case Nil
  then show ?case by simp
next
  case (Cons c cs)
  show ?case
  proof (cases "c = CHR ''/''")
    case True
    with Cons show ?thesis by auto
  next
    case False
    obtain x xs where sp: "split_sep cs = x # xs"
      using split_sep_not_Nil [of cs] by (cases "split_sep cs") auto
    with Cons.prems False have "e = c # x \<or> e \<in> set xs" by simp
    with Cons.IH [of x] Cons.IH [of e] sp False show ?thesis by auto
  qed
qed

lemma split_sep_plain: "CHR ''/'' \<notin> set e \<Longrightarrow> split_sep e = [e]"
  by (induction e) auto

lemma split_sep_append:
  "CHR ''/'' \<notin> set e \<Longrightarrow> split_sep (e @ CHR ''/'' # rest) = e # split_sep rest"
  by (induction e) auto

lemma split_join:
  "xs \<noteq> [] \<Longrightarrow> (\<forall>x \<in> set xs. CHR ''/'' \<notin> set x) \<Longrightarrow> split_sep (join_sep xs) = xs"
proof (induction xs rule: join_sep.induct)
  case 1
  then show ?case by simp
next
  case (2 e)
  then show ?case by (simp add: split_sep_plain)
next
  case (3 e e' es)
  then show ?case by (simp add: split_sep_append)
qed

lemma join_sep_hd:
  "xs \<noteq> [] \<Longrightarrow> hd xs \<noteq> [] \<Longrightarrow> join_sep xs \<noteq> [] \<and> hd (join_sep xs) = hd (hd xs)"
  by (induction xs rule: join_sep.induct) auto

lemma clean_step_real: "real_elem e \<Longrightarrow> clean_step rooted out e = e # out"
  by (simp add: clean_step_def real_elem_def)

lemma foldl_clean_real:
  "(\<forall>e \<in> set es. real_elem e) \<Longrightarrow> foldl (clean_step rooted) out es = rev es @ out"
  by (induction es arbitrary: out) (simp_all add: clean_step_real)

lemma foldl_clean_dots:
  "foldl (clean_step False) (replicate j ''..'') (replicate k ''..'') = replicate (k + j) ''..''"
proof (induction k arbitrary: j)
  case 0
  then show ?case by simp
next
  case (Suc k)
  have "clean_step False (replicate j ''..'') ''..'' = replicate (Suc j) ''..''"
    by (cases j) (simp_all add: clean_step_def)
  with Suc [of "Suc j"] show ?case by simp
qed

lemma clean_step_normal:
  assumes "cleaned rooted out" and "CHR ''/'' \<notin> set e"
  shows "cleaned rooted (clean_step rooted out e)"
proof -
  from assms(1) obtain k reals where out: "out = reals @ replicate k ''..''"
    and re: "\<forall>e \<in> set reals. real_elem e" and rt: "rooted \<longrightarrow> k = 0"
    unfolding cleaned_def by blast
  consider "e = [] \<or> e = ''.''" | "e = ''..''" | "real_elem e"
    using assms(2) by (auto simp: real_elem_def)
  then show ?thesis
  proof cases
    case 1
    with assms(1) show ?thesis by (auto simp: clean_step_def)
  next
    case 2
    show ?thesis
    proof (cases reals)
      case Nil
      with out have o: "out = replicate k ''..''" by simp
      then have nb: "\<not> (out \<noteq> [] \<and> hd out \<noteq> ''..'')" by (cases k) auto
      show ?thesis
      proof (cases rooted)
        case True
        with nb 2 assms(1) show ?thesis by (auto simp: clean_step_def)
      next
        case False
        with nb 2 have "clean_step rooted out e = ''..'' # out"
          by (auto simp: clean_step_def)
        with o have "clean_step rooted out e = [] @ replicate (Suc k) ''..''"
          by simp
        with False show ?thesis unfolding cleaned_def by (intro exI [of _ "Suc k"] exI [of _ "[]"]) simp
      qed
    next
      case (Cons r rs)
      with re have "real_elem r" by simp
      then have "r \<noteq> ''..''" by (simp add: real_elem_def)
      with Cons out 2 have "clean_step rooted out e = rs @ replicate k ''..''"
        by (simp add: clean_step_def)
      with re rt Cons show ?thesis unfolding cleaned_def by (intro exI [of _ k] exI [of _ rs]) simp
    qed
  next
    case 3
    then have "clean_step rooted out e = (e # reals) @ replicate k ''..''"
      by (simp add: clean_step_real out)
    with re rt 3 show ?thesis unfolding cleaned_def by (intro exI [of _ k] exI [of _ "e # reals"]) simp
  qed
qed

lemma foldl_clean_normal:
  "cleaned rooted out \<Longrightarrow> (\<forall>e \<in> set es. CHR ''/'' \<notin> set e)
     \<Longrightarrow> cleaned rooted (foldl (clean_step rooted) out es)"
  by (induction es arbitrary: out) (simp_all add: clean_step_normal)

lemma normal_Nil: "cleaned rooted []"
  unfolding cleaned_def by (intro exI [of _ 0] exI [of _ "[]"]) simp

lemma cleaned_normal: "cleaned rooted (foldl (clean_step rooted) [] (split_sep path))"
  by (intro foldl_clean_normal normal_Nil) (simp add: split_sep_no_slash)

lemma normal_elems:
  assumes "cleaned rooted out" and "e \<in> set out"
  shows "e \<noteq> []" and "CHR ''/'' \<notin> set e" and "hd e \<noteq> CHR ''/''"
proof -
  from assms obtain k reals where "out = reals @ replicate k ''..''"
    and "\<forall>e \<in> set reals. real_elem e"
    unfolding cleaned_def by blast
  with assms(2) have "real_elem e \<or> e = ''..''" by auto
  then show "e \<noteq> []" and "CHR ''/'' \<notin> set e" and "hd e \<noteq> CHR ''/''"
    by (cases e; auto simp: real_elem_def)+
qed

lemma IsAbs_iff: "filepath_IsAbs path \<longleftrightarrow> path \<noteq> [] \<and> hd path = CHR ''/''"
  by (cases path) (auto simp: filepath_IsAbs_def)

lemma Clean_relative:
  assumes "\<not> filepath_IsAbs path"
  shows "\<not> filepath_IsAbs (filepath_Clean path)"
proof (cases "path = []")
  case True
  then show ?thesis by (simp add: filepath_Clean_def IsAbs_iff)
next
  case False
  with assms have nr: "hd path \<noteq> CHR ''/''" by (simp add: IsAbs_iff)
  let ?out = "foldl (clean_step False) [] (split_sep path)"
  have n: "cleaned False ?out" by (rule cleaned_normal)
  show ?thesis
  proof (cases "?out = []")
    case True
    with False nr show ?thesis by (simp add: filepath_Clean_def IsAbs_iff Let_def)
  next
    case ne: False
    then have r: "rev ?out \<noteq> []" by simp
    then have "hd (rev ?out) \<in> set ?out" by (metis hd_in_set set_rev)
    from normal_elems [OF n this] join_sep_hd [OF r]
    have "join_sep (rev ?out) \<noteq> []" "hd (join_sep (rev ?out)) \<noteq> CHR ''/''" by auto
    with False nr show ?thesis by (simp add: filepath_Clean_def IsAbs_iff Let_def)
  qed
qed


lemma Clean_of_normal:
  assumes "cleaned rooted out"
  shows "filepath_Clean (let buf = (if rooted then ''/'' else []) @ join_sep (rev out)
                         in if buf = [] then ''.'' else buf)
       = (let buf = (if rooted then ''/'' else []) @ join_sep (rev out)
          in if buf = [] then ''.'' else buf)"
proof -
  from assms obtain k reals where out: "out = reals @ replicate k ''..''"
    and re: "\<forall>e \<in> set reals. real_elem e" and rt: "rooted \<longrightarrow> k = 0"
    unfolding cleaned_def by blast
  have noslash: "\<forall>x \<in> set (rev out). CHR ''/'' \<notin> set x"
    using normal_elems(2) [OF assms] by simp
  have again: "foldl (clean_step rooted) [] (rev out) = out"
  proof (cases rooted)
    case True
    with rt out re show ?thesis by (simp add: foldl_clean_real)
  next
    case False
    have "foldl (clean_step False) [] (replicate k ''..'' @ rev reals)
        = foldl (clean_step False) (replicate k ''..'') (rev reals)"
      using foldl_clean_dots [of 0 k] by simp
    also have "\<dots> = reals @ replicate k ''..''"
      using re by (simp add: foldl_clean_real)
    finally show ?thesis using False out by simp
  qed
  show ?thesis
  proof (cases "out = []")
    case True
    then show ?thesis
      by (cases rooted) (simp_all add: filepath_Clean_def clean_step_def)
  next
    case False
    then have r: "rev out \<noteq> []" by simp
    then have "hd (rev out) \<in> set out" by (metis hd_in_set set_rev)
    from normal_elems [OF assms this] join_sep_hd [OF r]
    have j: "join_sep (rev out) \<noteq> []" "hd (join_sep (rev out)) \<noteq> CHR ''/''" by auto
    from split_join [OF r noslash] have sp: "split_sep (join_sep (rev out)) = rev out" .
    show ?thesis
    proof (cases rooted)
      case True
      have "foldl (clean_step True) [] ([] # rev out) = foldl (clean_step True) [] (rev out)"
        by (simp add: clean_step_def)
      with True again sp show ?thesis by (simp add: filepath_Clean_def)
    next
      case nr: False
      with j again sp show ?thesis by (simp add: filepath_Clean_def Let_def)
    qed
  qed
qed

lemma Clean_idempotent: "filepath_Clean (filepath_Clean path) = filepath_Clean path"
proof (cases "path = []")
  case True
  then show ?thesis by (simp add: filepath_Clean_def clean_step_def)
next
  case False
  from Clean_of_normal [OF cleaned_normal, of "hd path = CHR ''/''" path] False
  show ?thesis by (simp add: filepath_Clean_def Let_def)
qed

lemma Clean_absolute: "filepath_IsAbs path \<Longrightarrow> filepath_IsAbs (filepath_Clean path)"
  by (simp add: IsAbs_iff filepath_Clean_def Let_def)

lemma lock_key_spellings:
  assumes "filepath_IsAbs wd" and "\<not> filepath_IsAbs rel"
  shows "lock_key (Some wd) rel = lock_key (Some wd) (wd @ ''/'' @ rel)"
proof -
  from assms(1) have "wd \<noteq> []" "filepath_IsAbs (wd @ ''/'' @ rel)"
    by (auto simp: IsAbs_iff)
  with assms(2) show ?thesis
    by (simp add: lock_key_def filepath_Abs_def filepath_Join_def)
qed

lemma lock_key_idempotent:
  assumes "wd = None \<or> (\<exists>dir. wd = Some dir \<and> filepath_IsAbs dir)"
  shows "lock_key wd (lock_key wd path) = lock_key wd path"
proof (cases "filepath_IsAbs path")
  case True
  with Clean_absolute [OF True] show ?thesis
    by (simp add: lock_key_def filepath_Abs_def Clean_idempotent)
next
  case False
  from assms show ?thesis
  proof
    assume "wd = None"
    with False Clean_relative [OF False] show ?thesis
      by (simp add: lock_key_def filepath_Abs_def Clean_idempotent)
  next
    assume "\<exists>dir. wd = Some dir \<and> filepath_IsAbs dir"
    then obtain dir where w: "wd = Some dir" "filepath_IsAbs dir" by blast
    then have "dir \<noteq> []" by (simp add: IsAbs_iff)
    with w have "filepath_IsAbs (dir @ CHR ''/'' # path)" by (simp add: IsAbs_iff)
    from Clean_absolute [OF this] False w \<open>dir \<noteq> []\<close> show ?thesis
      by (simp add: lock_key_def filepath_Abs_def filepath_Join_def Clean_idempotent)
  qed
qed

text \<open>
  The key of a path is the place it leads to, written out from the root: \<open>filepath.Clean\<close>
  on a rooted path does the walk.
\<close>

lemma split_sep_slash: "split_sep (a @ CHR ''/'' # b) = split_sep a @ split_sep b"
proof (induction a)
  case Nil
  show ?case by simp
next
  case (Cons c cs)
  obtain x xs where sp: "split_sep cs = x # xs"
    using split_sep_not_Nil [of cs] by (cases "split_sep cs") auto
  with Cons show ?case by simp
qed

lemma clean_step_walk:
  assumes "cleaned True out"
  shows "rev (clean_step True out e) = walk (rev out) e"
proof -
  from assms have re: "\<forall>e \<in> set out. real_elem e"
    unfolding cleaned_def by auto
  show ?thesis
  proof (cases out)
    case Nil
    then show ?thesis by (simp add: clean_step_def walk_def)
  next
    case (Cons r rs)
    with re have "real_elem r" by auto
    then have "r \<noteq> ''..''" by (simp add: real_elem_def)
    with Cons show ?thesis by (simp add: clean_step_def walk_def)
  qed
qed

lemma foldl_clean_walk:
  "cleaned True out \<Longrightarrow> (\<forall>e \<in> set es. CHR ''/'' \<notin> set e)
     \<Longrightarrow> rev (foldl (clean_step True) out es) = foldl walk (rev out) es"
proof (induction es arbitrary: out)
  case Nil
  show ?case by simp
next
  case (Cons e es)
  from Cons.prems have c: "cleaned True (clean_step True out e)"
    by (simp add: clean_step_normal)
  from Cons.IH [OF c] Cons.prems(2) clean_step_walk [OF Cons.prems(1), of e]
  show ?case by simp
qed

lemma Clean_rooted:
  assumes "filepath_IsAbs path"
  shows "filepath_Clean path = CHR ''/'' # join_sep (foldl walk [] (split_sep path))"
proof -
  from assms have p: "path \<noteq> []" "hd path = CHR ''/''" by (simp_all add: IsAbs_iff)
  from foldl_clean_walk [OF normal_Nil, of "split_sep path"] split_sep_no_slash [of _ path]
  have "rev (foldl (clean_step True) [] (split_sep path)) = foldl walk [] (split_sep path)"
    by auto
  with p show ?thesis by (simp add: filepath_Clean_def)
qed

lemma lock_key_place:
  assumes "filepath_IsAbs wd"
  shows "lock_key (Some wd) path = CHR ''/'' # join_sep (place wd path)"
proof (cases "filepath_IsAbs path")
  case True
  then show ?thesis
    by (simp add: lock_key_def filepath_Abs_def Clean_rooted place_def)
next
  case False
  from assms have w: "wd \<noteq> []" "filepath_IsAbs (wd @ CHR ''/'' # path)"
    by (auto simp: IsAbs_iff)
  from False w(1) have "lock_key (Some wd) path = filepath_Clean (wd @ CHR ''/'' # path)"
    by (simp add: lock_key_def filepath_Abs_def filepath_Join_def)
  with False show ?thesis
    by (simp add: Clean_rooted [OF w(2)] split_sep_slash place_def)
qed

lemma lock_key_same_place:
  assumes "filepath_IsAbs wd" and "place wd a = place wd b"
  shows "lock_key (Some wd) a = lock_key (Some wd) b"
  using assms by (simp add: lock_key_place)

section \<open>Getting and releasing a lock\<close>

lemma getLock_not_Fatal: "getLock p path \<noteq> Fatal msg"
  by (auto simp: getLock_def bind_def Mutex_Lock_def Mutex_Unlock_def set_mu_def
      lookup_or_create_def Let_def split: option.splits run.splits prod.splits)

lemma Lock_not_Fatal: "Lock p path \<noteq> Fatal msg"
proof (cases "getLock p path")
  case Blocked
  then show ?thesis by (simp add: Lock_def bind_def)
next
  case (Fatal m)
  with getLock_not_Fatal show ?thesis by blast
next
  case (Done x)
  then show ?thesis
    by (cases x) (simp add: Lock_def bind_def Mutex_Lock_def)
qed

text \<open>
  C6. \<open>WithLock\<close> on a free lock, with an \<open>fn\<close> that comes to an end (by returning
  \<open>nil\<close> or an error, or by panicking) and leaves the lock manager alone: the lock of
  the path is taken and held when \<open>fn\<close> starts, \<open>WithLock\<close> ends the way \<open>fn\<close> ended,
  with the value or the panic of \<open>fn\<close>, and the lock is free again afterwards.
\<close>

theorem WithLock_releases:
  assumes "lock_idle p path"
    and "\<And>p1. Lock p path = Done p1 \<Longrightarrow>
           \<exists>h p2. fn p1 = Done (h, p2) \<and> getwd p2 = getwd p1 \<and> heap p2 = heap p1
             \<and> globalFileLockManager p2 = globalFileLockManager p1"
  shows "\<exists>lock p1 h p2 p3. Lock p path = Done p1
           \<and> locks (globalFileLockManager p1) (lock_key (getwd p) path) = Some lock
           \<and> heap p1 lock
           \<and> fn p1 = Done (h, p2)
           \<and> WithLock p path fn = Done (h, p3)
           \<and> \<not> heap p3 lock \<and> lock_idle p3 path \<and> disk p3 = disk p2"
proof -
  obtain l p0 where lc: "lookup_or_create p (lock_key (getwd p) path) = (l, p0)"
    by (cases "lookup_or_create p (lock_key (getwd p) path)")
  note props = lookup_or_create_props [OF lc]
  from assms(1) have m: "\<not> mu (globalFileLockManager p)" by (simp add: lock_idle_def)
  define p1 where "p1 = p0\<lparr>heap := (heap p0)(l := True)\<rparr>"
  have L: "Lock p path = Done p1"
    unfolding p1_def by (rule Lock_idle [OF assms(1) lc])
  from assms(2) [OF L] obtain h p2 where f: "fn p1 = Done (h, p2)"
    and fr: "getwd p2 = getwd p1" "heap p2 = heap p1"
      "globalFileLockManager p2 = globalFileLockManager p1"
    by blast
  define p3 where "p3 = p2\<lparr>heap := (heap p2)(l := False)\<rparr>"
  have U: "Unlock p2 path = Done p3"
    unfolding p3_def by (rule Unlock_held) (simp_all add: fr p1_def props m)
  have W: "WithLock p path fn = Done (h, p3)"
    by (simp add: WithLock_def L f U bind_def)
  have "lock_idle p3 path"
    by (simp add: lock_idle_def p3_def fr p1_def props m)
  with L f W show ?thesis
    by (intro exI [of _ l] exI [of _ p1] exI [of _ h] exI [of _ p2] exI [of _ p3])
      (simp add: p1_def p3_def props)
qed

theorem WithLock_releases_witness:
  "(\<exists>p3. WithLock example_process ''/w/notes.txt'' (\<lambda>p. Done (Panic ''boom'', p))
           = Done (Panic ''boom'' :: string option how, p3) \<and> lock_idle p3 ''/w/notes.txt'')
   \<and> (\<exists>p3. WithLock example_process ''/w/notes.txt'' (\<lambda>p. Done (Return (Some ''disk full''), p))
           = Done (Return (Some ''disk full''), p3) \<and> lock_idle p3 ''/w/notes.txt'')
   \<and> (\<exists>p3. WithLock example_process ''/w/notes.txt'' (\<lambda>p. Done (Return None, p))
           = Done (Return (None :: string option), p3) \<and> lock_idle p3 ''/w/notes.txt'')"
proof -
  have w: "\<exists>p3. WithLock example_process ''/w/notes.txt'' (\<lambda>p. Done (h0, p)) = Done (h0, p3)
      \<and> lock_idle p3 ''/w/notes.txt''" for h0 :: "string option how"
  proof -
    have f: "\<exists>h p2. (\<lambda>p. Done (h0, p)) p1 = Done (h, p2) \<and> getwd p2 = getwd p1
        \<and> heap p2 = heap p1 \<and> globalFileLockManager p2 = globalFileLockManager p1" for p1
      by simp
    from WithLock_releases [of example_process "''/w/notes.txt''" "\<lambda>p. Done (h0, p)",
        OF example_idle f]
    obtain p1 h p2 p3 where a: "(\<lambda>p. Done (h0, p)) p1 = Done (h, p2)"
      and b: "WithLock example_process ''/w/notes.txt'' (\<lambda>p. Done (h0, p)) = Done (h, p3)"
      and c: "lock_idle p3 ''/w/notes.txt''"
      by blast
    from a have "h = h0" by simp
    with b c show ?thesis by blast
  qed
  from w [of "Panic ''boom''"] w [of "Return (Some ''disk full'')"] w [of "Return None"]
  show ?thesis by simp
qed

section \<open>Steps of callers that run at the same time\<close>

lemma lookup_or_create_cases:
  assumes "lookup_or_create p k = (l, p')"
  obtains (old) "locks (globalFileLockManager p) k = Some l" "p' = p"
  | (new) "locks (globalFileLockManager p) k = None" "l = brk p"
      "p' = p\<lparr>heap := (heap p)(brk p := False), brk := Suc (brk p),
              globalFileLockManager :=
                (globalFileLockManager p)\<lparr>locks := (locks (globalFileLockManager p))(k \<mapsto> brk p)\<rparr>\<rparr>"
  using assms by (auto simp: lookup_or_create_def Let_def split: option.splits)

lemma thread_step_Running:
  assumes "thread_step c (Running b) p = Some (pc', p')"
  shows "(\<exists>r. b = Assigned r \<and> pc' = Unlocking Enter r \<and> p' = p) \<or>
         ((\<forall>r. b \<noteq> Assigned r) \<and> pc' = Running (fst (body_step c b (disk p)))
            \<and> p' = p\<lparr>disk := snd (body_step c b (disk p))\<rparr>)"
  using assms by (cases b) (auto split: prod.splits)

text \<open>What one step of one caller does to each part of the process.\<close>

lemma thread_step_cases:
  assumes "thread_step c pc p = Some (pc', p')"
  obtains
    (mu_lock) "pc = Locking Enter \<or> (\<exists>r. pc = Unlocking Enter r)"
      "\<not> mu (globalFileLockManager p)" "p' = set_mu True p"
      "holds_mu pc'" "in_hand pc' = None" "in_section pc' = in_section pc"
      "\<forall>m. pc' \<noteq> Crashed m"
  | (lookup) l where "pc = Locking Inside \<or> (\<exists>r. pc = Unlocking Inside r)"
      "lookup_or_create p (lock_key (getwd p) (resolved c)) = (l, p')"
      "holds_mu pc'" "in_hand pc' = Some l" "in_section pc' = in_section pc"
      "\<forall>m. pc' \<noteq> Crashed m"
  | (mu_unlock) l where "pc = Locking (Found l) \<or> (\<exists>r. pc = Unlocking (Found l) r)"
      "mu (globalFileLockManager p)" "p' = set_mu False p"
      "\<not> holds_mu pc'" "in_hand pc' = Some l" "in_section pc' = in_section pc"
      "\<forall>m. pc' \<noteq> Crashed m"
  | (mu_crash) l where "pc = Locking (Found l) \<or> (\<exists>r. pc = Unlocking (Found l) r)"
      "\<not> mu (globalFileLockManager p)"
  | (acquire) l where "pc = Locking (Left l)" "\<not> heap p l"
      "pc' = Running (body_init c)" "p' = p\<lparr>heap := (heap p)(l := True)\<rparr>"
  | (io) b where "pc = Running b" "\<forall>r. b \<noteq> Assigned r"
      "pc' = Running (fst (body_step c b (disk p)))"
      "p' = p\<lparr>disk := snd (body_step c b (disk p))\<rparr>"
  | (return) r where "pc = Running (Assigned r)" "pc' = Unlocking Enter r" "p' = p"
  | (release) l r where "pc = Unlocking (Left l) r" "heap p l"
      "pc' = Finished r" "p' = p\<lparr>heap := (heap p)(l := False)\<rparr>"
  | (release_crash) l r where "pc = Unlocking (Left l) r" "\<not> heap p l"
proof (cases pc)
  case (Locking stg)
  with assms show ?thesis
    by (cases stg) (auto split: if_splits prod.splits intro: that)
next
  case (Running b)
  from thread_step_Running [OF assms [unfolded Running]] Running show ?thesis
    by (auto intro: that)
next
  case (Unlocking stg r)
  with assms show ?thesis
    by (cases stg) (auto split: if_splits prod.splits intro: that)
next
  case (Finished r)
  with assms show ?thesis by simp
next
  case (Crashed m)
  with assms show ?thesis by simp
qed


lemma inv_update:
  assumes inv: "lock_invariant calls p pcs" and i: "i < length calls"
    and wd: "getwd p' = getwd p"
    and reg: "registry_ok p'"
    and mono: "\<And>k l. locks (globalFileLockManager p) k = Some l
                 \<Longrightarrow> locks (globalFileLockManager p') k = Some l"
    and mu1: "mu (globalFileLockManager p') \<longleftrightarrow>
                holds_mu pc' \<or> (mu (globalFileLockManager p) \<and> \<not> holds_mu (pcs ! i))"
    and mu2: "holds_mu pc' \<Longrightarrow> holds_mu (pcs ! i) \<or> \<not> mu (globalFileLockManager p)"
    and hand: "\<And>l. in_hand pc' = Some l
                 \<Longrightarrow> locks (globalFileLockManager p') (key p (calls ! i)) = Some l"
    and keep: "\<And>j l. j < length calls \<Longrightarrow> j \<noteq> i \<Longrightarrow> in_section (pcs ! j)
                 \<Longrightarrow> locks (globalFileLockManager p) (key p (calls ! j)) = Some l
                 \<Longrightarrow> heap p l \<Longrightarrow> heap p' l"
    and sect: "in_section pc'
                 \<Longrightarrow> \<exists>l. locks (globalFileLockManager p') (key p (calls ! i)) = Some l \<and> heap p' l"
    and excl: "\<And>j. in_section pc' \<Longrightarrow> \<not> in_section (pcs ! i) \<Longrightarrow> j < length calls
                 \<Longrightarrow> j \<noteq> i \<Longrightarrow> in_section (pcs ! j)
                 \<Longrightarrow> key p (calls ! j) \<noteq> key p (calls ! i)"
    and nocrash: "\<And>m. pc' \<noteq> Crashed m"
  shows "lock_invariant calls p' (pcs[i := pc'])"
proof -
  let ?pcs = "pcs[i := pc']"
  from inv have len: "length pcs = length calls" by (simp add: lock_invariant_def)
  have nth: "?pcs ! j = (if j = i then pc' else pcs ! j)" if "j < length calls" for j
    using that len i by (simp add: nth_list_update)
  have k: "key p' c = key p c" for c by (simp add: key_def wd)
  from inv have
    I_mu: "mu (globalFileLockManager p) \<longleftrightarrow> (\<exists>j<length calls. holds_mu (pcs ! j))"
    and I_one: "\<And>a b. a < length calls \<Longrightarrow> b < length calls \<Longrightarrow> holds_mu (pcs ! a)
                  \<Longrightarrow> holds_mu (pcs ! b) \<Longrightarrow> a = b"
    and I_hand: "\<And>j l. j < length calls \<Longrightarrow> in_hand (pcs ! j) = Some l
                  \<Longrightarrow> locks (globalFileLockManager p) (key p (calls ! j)) = Some l"
    and I_sect: "\<And>j. j < length calls \<Longrightarrow> in_section (pcs ! j)
                  \<Longrightarrow> \<exists>l. locks (globalFileLockManager p) (key p (calls ! j)) = Some l \<and> heap p l"
    and I_excl: "\<And>a b. a < length calls \<Longrightarrow> b < length calls \<Longrightarrow> in_section (pcs ! a)
                  \<Longrightarrow> in_section (pcs ! b) \<Longrightarrow> key p (calls ! a) = key p (calls ! b) \<Longrightarrow> a = b"
    and I_crash: "\<And>j m. j < length calls \<Longrightarrow> pcs ! j \<noteq> Crashed m"
    unfolding lock_invariant_def by blast+
  have 1: "mu (globalFileLockManager p') \<longleftrightarrow> (\<exists>j<length calls. holds_mu (?pcs ! j))"
  proof
    assume m: "mu (globalFileLockManager p')"
    show "\<exists>j<length calls. holds_mu (?pcs ! j)"
    proof (cases "holds_mu pc'")
      case True
      with i nth [OF i] show ?thesis by auto
    next
      case False
      with m mu1 have "mu (globalFileLockManager p)" "\<not> holds_mu (pcs ! i)" by auto
      with I_mu obtain j where j: "j < length calls" "holds_mu (pcs ! j)" by auto
      with \<open>\<not> holds_mu (pcs ! i)\<close> have "j \<noteq> i" by auto
      with j nth [OF j(1)] show ?thesis by auto
    qed
  next
    assume "\<exists>j<length calls. holds_mu (?pcs ! j)"
    then obtain j where j: "j < length calls" "holds_mu (?pcs ! j)" by auto
    show "mu (globalFileLockManager p')"
    proof (cases "j = i")
      case True
      with j nth [OF j(1)] mu1 show ?thesis by simp
    next
      case False
      with j nth [OF j(1)] have hj: "holds_mu (pcs ! j)" by simp
      with j(1) I_mu have "mu (globalFileLockManager p)" by auto
      moreover from I_one [OF j(1) i hj] False have "\<not> holds_mu (pcs ! i)" by auto
      ultimately show ?thesis using mu1 by simp
    qed
  qed
  have 2: "a = b" if a: "a < length calls" and b: "b < length calls"
    and ha: "holds_mu (?pcs ! a)" and hb: "holds_mu (?pcs ! b)" for a b
  proof (rule ccontr)
    assume ne: "a \<noteq> b"
    have other: False if x: "x < length calls" "x \<noteq> i" "holds_mu (pcs ! x)" and h: "holds_mu pc'" for x
    proof -
      from x I_mu have "mu (globalFileLockManager p)" by auto
      with mu2 [OF h] have "holds_mu (pcs ! i)" by simp
      from I_one [OF x(1) i x(3) this] x(2) show False by simp
    qed
    show False
    proof (cases "a = i")
      case True
      with ne have "b \<noteq> i" by simp
      with hb nth [OF b] have "holds_mu (pcs ! b)" by simp
      from other [OF b \<open>b \<noteq> i\<close> this] ha True nth [OF a] show False by simp
    next
      case False
      with ha nth [OF a] have haa: "holds_mu (pcs ! a)" by simp
      show False
      proof (cases "b = i")
        case True
        from other [OF a False haa] hb True nth [OF b] show False by simp
      next
        case bf: False
        with hb nth [OF b] have "holds_mu (pcs ! b)" by simp
        from I_one [OF a b haa this] ne show False by simp
      qed
    qed
  qed
  have 3: "locks (globalFileLockManager p') (key p' (calls ! j)) = Some l"
    if j: "j < length calls" and h: "in_hand (?pcs ! j) = Some l" for j l
  proof (cases "j = i")
    case True
    with h nth [OF j] hand show ?thesis by (simp add: k)
  next
    case False
    with h nth [OF j] have "in_hand (pcs ! j) = Some l" by simp
    from mono [OF I_hand [OF j this]] show ?thesis by (simp add: k)
  qed
  have 4: "\<exists>l. locks (globalFileLockManager p') (key p' (calls ! j)) = Some l \<and> heap p' l"
    if j: "j < length calls" and h: "in_section (?pcs ! j)" for j
  proof (cases "j = i")
    case True
    with h nth [OF j] sect show ?thesis by (simp add: k)
  next
    case False
    with h nth [OF j] have sj: "in_section (pcs ! j)" by simp
    from I_sect [OF j sj] obtain l
      where l: "locks (globalFileLockManager p) (key p (calls ! j)) = Some l" "heap p l" by auto
    from keep [OF j False sj l] mono [OF l(1)] show ?thesis by (auto simp: k)
  qed
  have 5: "a = b" if a: "a < length calls" and b: "b < length calls"
    and sa: "in_section (?pcs ! a)" and sb: "in_section (?pcs ! b)"
    and kk: "key p' (calls ! a) = key p' (calls ! b)" for a b
  proof (rule ccontr)
    assume ne: "a \<noteq> b"
    have other: False if x: "x < length calls" "x \<noteq> i" "in_section (pcs ! x)"
      and h: "in_section pc'" and e: "key p (calls ! x) = key p (calls ! i)" for x
    proof (cases "in_section (pcs ! i)")
      case True
      from I_excl [OF x(1) i x(3) True e] x(2) show False by simp
    next
      case False
      from excl [OF h False x] e show False by simp
    qed
    show False
    proof (cases "a = i")
      case True
      with ne have bi: "b \<noteq> i" by simp
      with sb nth [OF b] have "in_section (pcs ! b)" by simp
      from other [OF b bi this] sa True nth [OF a] kk show False by (simp add: k)
    next
      case False
      with sa nth [OF a] have saa: "in_section (pcs ! a)" by simp
      show False
      proof (cases "b = i")
        case True
        from other [OF a False saa] sb True nth [OF b] kk show False by (simp add: k)
      next
        case bf: False
        with sb nth [OF b] have "in_section (pcs ! b)" by simp
        from I_excl [OF a b saa this] kk ne show False by (simp add: k)
      qed
    qed
  qed
  have 6: "?pcs ! j \<noteq> Crashed m" if j: "j < length calls" for j m
    using nth [OF j] nocrash I_crash [OF j] by simp
  from len reg 1 2 3 4 5 6 show ?thesis
    unfolding lock_invariant_def by (simp only: length_list_update) blast
qed


lemma registry_ok_frame [simp]:
  "registry_ok (set_mu b p) = registry_ok p"
  "registry_ok (p\<lparr>heap := h\<rparr>) = registry_ok p"
  "registry_ok (p\<lparr>disk := d\<rparr>) = registry_ok p"
  by (simp_all add: registry_ok_def set_mu_def)

lemma key_frame [simp]:
  "key (set_mu b p) c = key p c"
  "key (p\<lparr>heap := h\<rparr>) c = key p c"
  "key (p\<lparr>disk := d\<rparr>) c = key p c"
  by (simp_all add: key_def set_mu_def)

lemma set_mu_simps [simp]:
  "mu (globalFileLockManager (set_mu b p)) = b"
  "locks (globalFileLockManager (set_mu b p)) = locks (globalFileLockManager p)"
  "heap (set_mu b p) = heap p" "getwd (set_mu b p) = getwd p"
  "brk (set_mu b p) = brk p" "disk (set_mu b p) = disk p"
  by (simp_all add: set_mu_def)

lemma lookup_or_create_frame:
  assumes "lookup_or_create p k = (l, p')"
  shows "getwd p' = getwd p" and "disk p' = disk p"
    and "mu (globalFileLockManager p') = mu (globalFileLockManager p)"
    and "locks (globalFileLockManager p') k = Some l"
    and "locks (globalFileLockManager p) k' = Some l' \<Longrightarrow> locks (globalFileLockManager p') k' = Some l'"
    and "registry_ok p \<Longrightarrow> registry_ok p'"
    and "registry_ok p \<Longrightarrow> locks (globalFileLockManager p) k' = Some l' \<Longrightarrow> heap p' l' = heap p l'"
  using assms
  by (cases rule: lookup_or_create_cases; auto simp: registry_ok_def less_Suc_eq)+

lemma inv_thread_step:
  assumes inv: "lock_invariant calls p pcs" and i: "i < length calls"
    and st: "thread_step (calls ! i) (pcs ! i) p = Some (pc', p')"
  shows "lock_invariant calls p' (pcs[i := pc'])"
proof -
  from inv have
    reg: "registry_ok p"
    and I_mu: "mu (globalFileLockManager p) \<longleftrightarrow> (\<exists>j<length calls. holds_mu (pcs ! j))"
    and I_hand: "\<And>j l. j < length calls \<Longrightarrow> in_hand (pcs ! j) = Some l
                  \<Longrightarrow> locks (globalFileLockManager p) (key p (calls ! j)) = Some l"
    and I_sect: "\<And>j. j < length calls \<Longrightarrow> in_section (pcs ! j)
                  \<Longrightarrow> \<exists>l. locks (globalFileLockManager p) (key p (calls ! j)) = Some l \<and> heap p l"
    and I_excl: "\<And>a b. a < length calls \<Longrightarrow> b < length calls \<Longrightarrow> in_section (pcs ! a)
                  \<Longrightarrow> in_section (pcs ! b) \<Longrightarrow> key p (calls ! a) = key p (calls ! b) \<Longrightarrow> a = b"
    unfolding lock_invariant_def by blast+
  from reg have inj: "\<And>k k' l. locks (globalFileLockManager p) k = Some l
      \<Longrightarrow> locks (globalFileLockManager p) k' = Some l \<Longrightarrow> k = k'"
    unfolding registry_ok_def by blast
  from st show ?thesis
  proof (cases rule: thread_step_cases)
    case mu_lock
    then have nh: "\<not> holds_mu (pcs ! i)" by auto
    show ?thesis
      using mu_lock(2-7) nh I_sect [OF i] reg
      by (intro inv_update [OF inv i]) auto
  next
    case (lookup l)
    then have h: "holds_mu (pcs ! i)" by auto
    with I_mu i have m: "mu (globalFileLockManager p)" by auto
    note fr = lookup_or_create_frame [OF lookup(2)]
    show ?thesis
    proof (intro inv_update [OF inv i])
      show "in_section pc' \<Longrightarrow>
          \<exists>l. locks (globalFileLockManager p') (key p (calls ! i)) = Some l \<and> heap p' l"
        using I_sect [OF i] lookup(5) fr(5) fr(7) [OF reg] by fastforce
    qed (use lookup(3-6) h m fr reg in \<open>auto simp: key_def\<close>)
  next
    case (mu_unlock l)
    then have h: "holds_mu (pcs ! i)" "in_hand (pcs ! i) = Some l" by auto
    show ?thesis
      using mu_unlock(2-7) h I_sect [OF i] I_hand [OF i h(2)] reg
      by (intro inv_update [OF inv i]) auto
  next
    case (mu_crash l)
    then have "holds_mu (pcs ! i)" by auto
    with I_mu i mu_crash(2) show ?thesis by auto
  next
    case (acquire l)
    then have h: "in_hand (pcs ! i) = Some l" "\<not> in_section (pcs ! i)" "\<not> holds_mu (pcs ! i)" by auto
    note li = I_hand [OF i h(1)]
    show ?thesis
    proof (intro inv_update [OF inv i])
      fix j assume j: "j < length calls" "j \<noteq> i" "in_section (pcs ! j)"
      from I_sect [OF j(1,3)] obtain l'
        where "locks (globalFileLockManager p) (key p (calls ! j)) = Some l'" "heap p l'" by auto
      with li acquire(2) show "key p (calls ! j) \<noteq> key p (calls ! i)" by auto
    qed (use acquire h li reg in auto)
  next
    case (io b)
    show ?thesis
      using io I_sect [OF i] reg
      by (intro inv_update [OF inv i]) auto
  next
    case (return r)
    show ?thesis
      using return I_sect [OF i] reg
      by (intro inv_update [OF inv i]) auto
  next
    case (release l r)
    then have h: "in_hand (pcs ! i) = Some l" "in_section (pcs ! i)" by auto
    note li = I_hand [OF i h(1)]
    show ?thesis
    proof (intro inv_update [OF inv i])
      fix j l' assume j: "j < length calls" "j \<noteq> i" "in_section (pcs ! j)"
        and l': "locks (globalFileLockManager p) (key p (calls ! j)) = Some l'" "heap p l'"
      have "l' \<noteq> l"
      proof
        assume "l' = l"
        with inj [OF l'(1), of "key p (calls ! i)"] li
        have "key p (calls ! j) = key p (calls ! i)" by simp
        from I_excl [OF j(1) i j(3) h(2) this] j(2) show False by simp
      qed
      with l'(2) release(4) show "heap p' l'" by simp
    qed (use release h reg in auto)
  next
    case (release_crash l r)
    then have h: "in_hand (pcs ! i) = Some l" "in_section (pcs ! i)" by auto
    from I_hand [OF i h(1)] I_sect [OF i h(2)] release_crash(2) show ?thesis by auto
  qed
qed

section \<open>Callers on one path take turns\<close>

lemma body_complete:
  "finish 4 c (body_init c, fs) = (Assigned (fst (locked_body c fs)), snd (locked_body c fs))"
proof (cases c)
  case (EditCall path rp old new)
  then show ?thesis
    by (auto simp: numeral_eq_Suc edit_locked_def os_WriteFile_def Let_def
        split: sum.splits prod.splits option.splits)
next
  case (AppendCall path rp content)
  then show ?thesis
    by (auto simp: numeral_eq_Suc append_locked_def split: sum.splits prod.splits option.splits)
qed

lemma complete_add: "finish (k + m) c x = finish m c (finish k c x)"
  by (induction k arbitrary: x) simp_all

lemma complete_step:
  assumes "finish 4 c (b, fs) = (Assigned r, fs')"
  shows "finish 4 c (body_step c b fs) = (Assigned r, fs')"
proof -
  have "finish 4 c (body_step c b fs) = finish (Suc 4) c (b, fs)"
    by (simp only: finish.simps fst_conv snd_conv)
  also have "\<dots> = finish (4 + Suc 0) c (b, fs)" by simp
  also have "\<dots> = finish (Suc 0) c (finish 4 c (b, fs))" by (rule complete_add)
  also have "\<dots> = (Assigned r, fs')" by (simp add: assms)
  finally show ?thesis .
qed

lemma complete_Assigned: "finish k c (Assigned r, fs) = (Assigned r, fs)"
  by (induction k) simp_all

lemma ordered_cong:
  assumes "\<And>j. j \<in> set order \<Longrightarrow> progress (pcs' ! j) = progress (pcs ! j)"
  shows "ordered calls pcs' d base order = ordered calls pcs d base order"
  using assms by (induction order arbitrary: base) (simp_all split: option.splits sum.splits)

lemma ordered_idle:
  assumes "ordered calls pcs d base order"
    and "\<And>j b. j \<in> set order \<Longrightarrow> progress (pcs ! j) \<noteq> Some (Inl b)"
  shows "d = in_turn calls base order"
  using assms
proof (induction order arbitrary: base)
  case Nil
  then show ?case by (simp add: in_turn_def)
next
  case (Cons i rest)
  from Cons.prems(2) [of i] obtain r where r: "progress (pcs ! i) = Some (Inr r)"
    using Cons.prems(1) by (auto split: option.splits sum.splits)
  with Cons.prems(1) have "ordered calls pcs d (snd (locked_body (calls ! i) base)) rest" by simp
  from Cons.IH [OF this] Cons.prems(2) show ?case by (simp add: in_turn_def)
qed

lemma ordered_results:
  assumes "ordered calls pcs d base order"
    and "\<And>j b. j \<in> set order \<Longrightarrow> progress (pcs ! j) \<noteq> Some (Inl b)"
    and "m < length order"
  shows "progress (pcs ! (order ! m))
     = Some (Inr (fst (locked_body (calls ! (order ! m)) (in_turn calls base (take m order)))))"
  using assms
proof (induction order arbitrary: base m)
  case Nil
  then show ?case by simp
next
  case (Cons i rest)
  from Cons.prems(2) [of i] obtain r where r: "progress (pcs ! i) = Some (Inr r)"
    using Cons.prems(1) by (auto split: option.splits sum.splits)
  with Cons.prems(1) have o: "ordered calls pcs d (snd (locked_body (calls ! i) base)) rest"
    and rr: "r = fst (locked_body (calls ! i) base)" by simp_all
  show ?case
  proof (cases m)
    case 0
    with r rr show ?thesis by (simp add: in_turn_def)
  next
    case (Suc m')
    with Cons.prems(3) have "m' < length rest" by simp
    from Cons.IH [OF o _ this] Cons.prems(2) Suc show ?thesis by (simp add: in_turn_def)
  qed
qed

lemma ordered_enter:
  assumes "ordered calls pcs d base order"
    and "\<And>j b. j \<in> set order \<Longrightarrow> progress (pcs ! j) \<noteq> Some (Inl b)"
    and "i \<notin> set order" and "i < length pcs"
  shows "ordered calls (pcs[i := Running (body_init (calls ! i))]) d base (order @ [i])"
  using assms
proof (induction order arbitrary: base)
  case Nil
  then show ?case by (simp add: body_complete)
next
  case (Cons j rest)
  from Cons.prems(2) [of j] obtain r where r: "progress (pcs ! j) = Some (Inr r)"
    using Cons.prems(1) by (auto split: option.splits sum.splits)
  with Cons.prems(1) have o: "ordered calls pcs d (snd (locked_body (calls ! j) base)) rest"
    and rr: "r = fst (locked_body (calls ! j) base)" by simp_all
  from Cons.prems(3) have ne: "i \<noteq> j" "i \<notin> set rest" by auto
  from Cons.IH [OF o _ ne(2) Cons.prems(4)] Cons.prems(2) r rr ne(1) show ?case by simp
qed

lemma ordered_io:
  assumes "ordered calls pcs d base order"
    and "i \<in> set order" and "i < length pcs" and "pcs ! i = Running b"
  shows "ordered calls (pcs[i := Running (fst (body_step (calls ! i) b d))])
           (snd (body_step (calls ! i) b d)) base order"
  using assms(1,2)
proof (induction order arbitrary: base)
  case Nil
  then show ?case by simp
next
  case (Cons j rest)
  show ?case
  proof (cases "j = i")
    case True
    with Cons.prems(1) assms(4) have "rest = []"
      and c: "finish 4 (calls ! i) (b, d)
            = (Assigned (fst (locked_body (calls ! i) base)), snd (locked_body (calls ! i) base))"
      by simp_all
    from complete_step [OF c] \<open>rest = []\<close> True assms(3) show ?thesis by simp
  next
    case False
    with Cons.prems(2) have "i \<in> set rest" by simp
    then have "rest \<noteq> []" by auto
    with Cons.prems(1) obtain r where r: "progress (pcs ! j) = Some (Inr r)"
      by (auto split: option.splits sum.splits)
    with Cons.prems(1) have o: "ordered calls pcs d (snd (locked_body (calls ! j) base)) rest"
      and rr: "r = fst (locked_body (calls ! j) base)" by simp_all
    from Cons.IH [OF o \<open>i \<in> set rest\<close>] r rr False show ?thesis by simp
  qed
qed

lemma ordered_return:
  assumes "ordered calls pcs d base order"
    and "i \<in> set order" and "i < length pcs" and "pcs ! i = Running (Assigned r)"
  shows "ordered calls (pcs[i := Unlocking Enter r]) d base order"
  using assms(1,2)
proof (induction order arbitrary: base)
  case Nil
  then show ?case by simp
next
  case (Cons j rest)
  show ?case
  proof (cases "j = i")
    case True
    with Cons.prems(1) assms(4) have "rest = []"
      and c: "finish 4 (calls ! i) (Assigned r, d)
            = (Assigned (fst (locked_body (calls ! i) base)), snd (locked_body (calls ! i) base))"
      by simp_all
    from c have "r = fst (locked_body (calls ! i) base)" "d = snd (locked_body (calls ! i) base)"
      by (simp_all add: complete_Assigned)
    with \<open>rest = []\<close> True assms(3) show ?thesis by simp
  next
    case False
    with Cons.prems(2) have "i \<in> set rest" by simp
    then have "rest \<noteq> []" by auto
    with Cons.prems(1) obtain r' where r: "progress (pcs ! j) = Some (Inr r')"
      by (auto split: option.splits sum.splits)
    with Cons.prems(1) have o: "ordered calls pcs d (snd (locked_body (calls ! j) base)) rest"
      and rr: "r' = fst (locked_body (calls ! j) base)" by simp_all
    from Cons.IH [OF o \<open>i \<in> set rest\<close>] r rr False show ?thesis by simp
  qed
qed

lemma thread_step_quiet:
  assumes "thread_step c pc p = Some (pc', p')"
    and "\<And>b. pc \<noteq> Running b" and "\<And>l. pc \<noteq> Locking (Left l)" and "\<And>m. pc' \<noteq> Crashed m"
  shows "progress pc' = progress pc" and "disk p' = disk p"
proof -
  have "progress pc' = progress pc \<and> disk p' = disk p"
  proof (cases pc)
    case (Locking stg)
    with assms show ?thesis
      by (cases stg) (auto simp: lookup_or_create_def Let_def split: if_splits prod.splits option.splits)
  next
    case (Unlocking stg r)
    with assms show ?thesis
      by (cases stg) (auto simp: lookup_or_create_def Let_def split: if_splits prod.splits option.splits)
  qed (use assms in auto)
  then show "progress pc' = progress pc" and "disk p' = disk p" by simp_all
qed

lemma inv_start: "lock_invariant calls (p\<lparr>globalFileLockManager := newFileLockManager\<rparr>)
    (replicate (length calls) (Locking Enter))"
  by (simp add: lock_invariant_def registry_ok_def newFileLockManager_def)

lemma ser_start: "serial calls (disk p) (p\<lparr>globalFileLockManager := newFileLockManager\<rparr>)
    (replicate (length calls) (Locking Enter))"
  unfolding serial_def by (intro exI [of _ "[]"]) simp

lemma ser_thread_step:
  assumes inv: "lock_invariant calls p pcs" and ser: "serial calls d0 p pcs"
    and same: "\<And>c. c \<in> set calls \<Longrightarrow> resolved c = P"
    and i: "i < length calls"
    and st: "thread_step (calls ! i) (pcs ! i) p = Some (pc', p')"
  shows "serial calls d0 p' (pcs[i := pc'])"
proof -
  let ?pcs = "pcs[i := pc']"
  from inv have len: "length pcs = length calls" by (simp add: lock_invariant_def)
  have nth: "?pcs ! j = (if j = i then pc' else pcs ! j)" if "j < length calls" for j
    using that len i by (simp add: nth_list_update)
  have nc: "pc' \<noteq> Crashed m" for m
  proof -
    from inv_thread_step [OF inv i st] have "\<forall>j<length calls. \<forall>m. ?pcs ! j \<noteq> Crashed m"
      by (simp add: lock_invariant_def)
    with i nth [OF i] show ?thesis by auto
  qed
  from inv have
    I_hand: "\<And>j l. j < length calls \<Longrightarrow> in_hand (pcs ! j) = Some l
                  \<Longrightarrow> locks (globalFileLockManager p) (key p (calls ! j)) = Some l"
    and I_sect: "\<And>j. j < length calls \<Longrightarrow> in_section (pcs ! j)
                  \<Longrightarrow> \<exists>l. locks (globalFileLockManager p) (key p (calls ! j)) = Some l \<and> heap p l"
    unfolding lock_invariant_def by blast+
  have keys: "key p (calls ! a) = key p (calls ! b)" if "a < length calls" "b < length calls" for a b
    using that same [of "calls ! a"] same [of "calls ! b"] by (simp add: key_def)
  from ser obtain order where d: "distinct order"
    and s: "set order = {j. j < length calls \<and> progress (pcs ! j) \<noteq> None}"
    and o: "ordered calls pcs (disk p) d0 order"
    unfolding serial_def by blast
  consider (run) b where "pcs ! i = Running b" | (acq) l where "pcs ! i = Locking (Left l)"
    | (quiet) "\<And>b. pcs ! i \<noteq> Running b" "\<And>l. pcs ! i \<noteq> Locking (Left l)"
    by blast
  then show ?thesis
  proof cases
    case quiet
    from thread_step_quiet [OF st quiet nc]
    have pr: "progress pc' = progress (pcs ! i)" and dk: "disk p' = disk p" by simp_all
    have same_pr: "progress (?pcs ! j) = progress (pcs ! j)" if "j < length calls" for j
      using nth [OF that] pr by simp
    have "set order = {j. j < length calls \<and> progress (?pcs ! j) \<noteq> None}"
      using s same_pr by auto
    moreover have "ordered calls ?pcs (disk p') d0 order"
      unfolding dk using o s same_pr by (subst ordered_cong) auto
    ultimately show ?thesis unfolding serial_def using d by blast
  next
    case (acq l)
    with st have free: "\<not> heap p l" and pc': "pc' = Running (body_init (calls ! i))"
      and dk: "disk p' = disk p"
      by (auto split: if_splits)
    from acq I_hand [OF i, of l] have li: "locks (globalFileLockManager p) (key p (calls ! i)) = Some l"
      by simp
    have nosec: "\<not> in_section (pcs ! j)" if j: "j < length calls" for j
    proof
      assume "in_section (pcs ! j)"
      from I_sect [OF j this] keys [OF j i] li free show False by auto
    qed
    have idle: "progress (pcs ! j) \<noteq> Some (Inl b)" if "j \<in> set order" for j b
    proof
      assume "progress (pcs ! j) = Some (Inl b)"
      then have "in_section (pcs ! j)" by (cases "pcs ! j") auto
      with nosec [of j] that s show False by auto
    qed
    from acq s have ni: "i \<notin> set order" by simp
    from i len have il: "i < length pcs" by simp
    have "distinct (order @ [i])" using d ni by simp
    moreover have "(progress (?pcs ! j) \<noteq> None) = (j = i \<or> progress (pcs ! j) \<noteq> None)"
      if "j < length calls" for j
      using nth [OF that] pc' by (cases "j = i") auto
    then have "set (order @ [i]) = {j. j < length calls \<and> progress (?pcs ! j) \<noteq> None}"
      using s i by auto
    moreover have "ordered calls ?pcs (disk p') d0 (order @ [i])"
      unfolding dk pc' by (rule ordered_enter [OF o idle ni il])
    ultimately show ?thesis unfolding serial_def by blast
  next
    case (run b)
    from run s i have mem: "i \<in> set order" by simp
    from i len have il: "i < length pcs" by simp
    from thread_step_Running [OF st [unfolded run]]
    have "ordered calls ?pcs (disk p') d0 order \<and> progress pc' \<noteq> None"
    proof (elim disjE exE conjE)
      fix r assume "b = Assigned r" "pc' = Unlocking Enter r" "p' = p"
      with ordered_return [OF o mem il] run show ?thesis by simp
    next
      assume "pc' = Running (fst (body_step (calls ! i) b (disk p)))"
        "p' = p\<lparr>disk := snd (body_step (calls ! i) b (disk p))\<rparr>"
      with ordered_io [OF o mem il run] show ?thesis by simp
    qed
    moreover from this have "(progress (?pcs ! j) \<noteq> None) = (progress (pcs ! j) \<noteq> None)"
      if "j < length calls" for j
      using nth [OF that] run by (cases "j = i") auto
    then have "set order = {j. j < length calls \<and> progress (?pcs ! j) \<noteq> None}"
      using s by auto
    ultimately show ?thesis unfolding serial_def using d by blast
  qed
qed

lemma step_invariants:
  assumes "step calls (p1, pcs1) (p2, pcs2)" and "lock_invariant calls p1 pcs1"
  shows "lock_invariant calls p2 pcs2"
    and "serial calls d0 p1 pcs1 \<Longrightarrow> (\<And>c. c \<in> set calls \<Longrightarrow> resolved c = P) \<Longrightarrow> serial calls d0 p2 pcs2"
proof -
  from assms(1) obtain i pc' where i: "i < length calls"
    and st: "thread_step (calls ! i) (pcs1 ! i) p1 = Some (pc', p2)"
    and pcs2: "pcs2 = pcs1[i := pc']"
    by (cases rule: step.cases) simp
  show "lock_invariant calls p2 pcs2"
    unfolding pcs2 by (rule inv_thread_step [OF assms(2) i st])
  assume "serial calls d0 p1 pcs1" and "\<And>c. c \<in> set calls \<Longrightarrow> resolved c = P"
  then show "serial calls d0 p2 pcs2"
    unfolding pcs2 by (rule ser_thread_step [OF assms(2) _ _ i st])
qed

lemma runs_invariants:
  assumes "runs calls (start p0 calls) (p, pcs)"
  shows "lock_invariant calls p pcs"
    and "(\<And>c. c \<in> set calls \<Longrightarrow> resolved c = P) \<Longrightarrow> serial calls (disk p0) p pcs"
proof -
  from assms have r: "(step calls)\<^sup>*\<^sup>* (p0\<lparr>globalFileLockManager := newFileLockManager\<rparr>,
      replicate (length calls) (Locking Enter)) (p, pcs)"
    by (simp add: runs_def start_def)
  from r show "lock_invariant calls p pcs"
  proof (induction rule: rtranclp_induct2)
    case refl
    show ?case by (rule inv_start)
  next
    case (step p1 pcs1 p2 pcs2)
    from step_invariants(1) [OF step(2) step(3)] show ?case .
  qed
  assume same: "\<And>c. c \<in> set calls \<Longrightarrow> resolved c = P"
  from r have "lock_invariant calls p pcs \<and> serial calls (disk p0) p pcs"
  proof (induction rule: rtranclp_induct2)
    case refl
    show ?case using inv_start ser_start by blast
  next
    case (step p1 pcs1 p2 pcs2)
    then have i1: "lock_invariant calls p1 pcs1" and s1: "serial calls (disk p0) p1 pcs1" by simp_all
    from step_invariants(1) [OF step(2) i1] step_invariants(2) [OF step(2) i1 s1 same]
    show ?case by simp
  qed
  then show "serial calls (disk p0) p pcs" by simp
qed

lemma exec_runs: "exec calls schedule s = Some s' \<Longrightarrow> runs calls s s'"
proof (induction calls schedule s rule: exec.induct)
  case (1 calls s)
  then show ?case by (simp add: runs_def)
next
  case (2 calls i schedule p pcs)
  from "2.prems" obtain pc' p' where i: "i < length pcs" "i < length calls"
    and st: "thread_step (calls ! i) (pcs ! i) p = Some (pc', p')"
    and ex: "exec calls schedule (p', pcs[i := pc']) = Some s'"
    by (auto split: if_splits option.splits)
  from i st have "step calls (p, pcs) (p', pcs[i := pc'])" by (rule step.intros)
  moreover from i have "i < length pcs \<and> i < length calls" by simp
  from "2.IH" [OF this st refl ex] have "runs calls (p', pcs[i := pc']) s'" .
  ultimately show ?case by (simp add: runs_def)
qed

lemma example_key: "lock_key (Some ''/w'') ''/w/log.txt'' = ''/w/log.txt''"
  by (simp add: lock_key_def filepath_Abs_def filepath_IsAbs_def filepath_Clean_def clean_step_def)

lemma two_appends_run:
  "\<exists>p pcs. exec two_appends b_first (start example_process two_appends) = Some (p, pcs)
     \<and> pcs = [Finished (SilentResult ''Appended to log.txt''), Finished (SilentResult ''Appended to log.txt'')]
     \<and> file_content (disk p) ''/w/log.txt'' = Some ''B\<newline>A\<newline>''"
  by (simp add: two_appends_def b_first_def start_def example_process_def example_disk_def
      newFileLockManager_def set_mu_def lookup_or_create_def example_key
      open_write_def write_end_def file_content_def)

lemma append_locked_success:
  assumes "\<not> IsError (fst (append_locked path rp content fs))"
  shows "file_content (snd (append_locked path rp content fs)) rp = Some (prior_content fs rp @ content)"
  using assms
  by (auto simp: append_locked_cases prior_content_def ErrorResult_def file_content_def open_write_def
      split: sum.splits option.splits node.splits if_splits)

lemma in_turn_snoc:
  "in_turn calls base (order @ [i]) = snd (locked_body (calls ! i) (in_turn calls base order))"
  by (simp add: in_turn_def)

lemma appends_in_turn:
  assumes "\<And>i. i \<in> set order \<Longrightarrow> \<exists>path content. calls ! i = AppendCall path P content"
    and "\<And>m. m < length order \<Longrightarrow>
           \<not> IsError (fst (locked_body (calls ! (order ! m)) (in_turn calls base (take m order))))"
  shows "prior_content (in_turn calls base order) P
           = prior_content base P @ concat (map (\<lambda>i. payload (calls ! i)) order)
         \<and> (order \<noteq> [] \<longrightarrow> file_content (in_turn calls base order) P \<noteq> None)"
  using assms
proof (induction order rule: rev_induct)
  case Nil
  then show ?case by (simp add: in_turn_def)
next
  case (snoc i order)
  have "prior_content (in_turn calls base order) P
      = prior_content base P @ concat (map (\<lambda>i. payload (calls ! i)) order)"
  proof (rule snoc.IH [THEN conjunct1])
    fix j assume "j \<in> set order"
    then show "\<exists>path content. calls ! j = AppendCall path P content" using snoc.prems(1) by simp
  next
    fix m assume m: "m < length order"
    with snoc.prems(2) [of m] show
      "\<not> IsError (fst (locked_body (calls ! (order ! m)) (in_turn calls base (take m order))))"
      by (simp add: nth_append)
  qed
  moreover from snoc.prems(1) [of i] obtain path content
    where c: "calls ! i = AppendCall path P content" by auto
  moreover from snoc.prems(2) [of "length order"]
  have "\<not> IsError (fst (locked_body (calls ! i) (in_turn calls base order)))" by simp
  with c have "file_content (in_turn calls base (order @ [i])) P
      = Some (prior_content (in_turn calls base order) P @ content)"
    by (simp add: in_turn_snoc append_locked_success)
  ultimately show ?case by (simp add: prior_content_def)
qed

text \<open>
  C1. Calls on one path \<open>P\<close> that run at the same time, in any interleaving of their
  steps, once all have returned: there is an order of the callers in which the calls,
  made one after the other, leave exactly the disk that is found, and give every caller
  exactly the result it got. If all of them are appends and all succeeded, the file
  holds what it held at the start followed by the payloads in that order.
\<close>

theorem concurrent_calls_in_turn:
  assumes "runs calls (start p0 calls) (p, pcs)"
    and "\<forall>c \<in> set calls. resolved c = P"
    and "\<forall>pc \<in> set pcs. finished pc \<noteq> None"
  shows "\<exists>order. distinct order \<and> set order = {..<length calls}
           \<and> disk p = in_turn calls (disk p0) order
           \<and> (\<forall>m<length calls. finished (pcs ! (order ! m))
                 = Some (fst (locked_body (calls ! (order ! m))
                                (in_turn calls (disk p0) (take m order)))))
           \<and> ((\<forall>c \<in> set calls. \<exists>path content. c = AppendCall path P content)
                \<and> (\<forall>pc \<in> set pcs. \<exists>r. pc = Finished r \<and> \<not> IsError r) \<and> calls \<noteq> []
              \<longrightarrow> file_content (disk p) P
                    = Some (prior_content (disk p0) P @ concat (map (\<lambda>i. payload (calls ! i)) order)))"
proof -
  from runs_invariants [OF assms(1)] assms(2)
  have inv: "lock_invariant calls p pcs" and ser: "serial calls (disk p0) p pcs" by blast+
  from inv have len: "length pcs = length calls" by (simp add: lock_invariant_def)
  have fin: "\<exists>r. pcs ! j = Finished r" if "j < length calls" for j
  proof -
    from that len assms(3) have "finished (pcs ! j) \<noteq> None" by simp
    then show ?thesis by (cases "pcs ! j") auto
  qed
  from ser obtain order where d: "distinct order"
    and s: "set order = {j. j < length calls \<and> progress (pcs ! j) \<noteq> None}"
    and o: "ordered calls pcs (disk p) (disk p0) order"
    unfolding serial_def by blast
  have "progress (pcs ! j) \<noteq> None" if "j < length calls" for j
    using fin [OF that] by auto
  with s have s': "set order = {..<length calls}" by auto
  from d s' have lo: "length order = length calls"
    using distinct_card [OF d] by simp
  have idle: "progress (pcs ! j) \<noteq> Some (Inl b)" if "j \<in> set order" for j b
  proof -
    from that s' have "j < length calls" by simp
    from fin [OF this] obtain r where "pcs ! j = Finished r" ..
    then show ?thesis by simp
  qed
  have disk: "disk p = in_turn calls (disk p0) order"
    by (rule ordered_idle [OF o idle])
  have res: "finished (pcs ! (order ! m))
      = Some (fst (locked_body (calls ! (order ! m)) (in_turn calls (disk p0) (take m order))))"
    if m: "m < length calls" for m
  proof -
    from m lo have m': "m < length order" by simp
    then have "order ! m \<in> set order" by simp
    with s' fin obtain r where r: "pcs ! (order ! m) = Finished r" by auto
    with ordered_results [OF o idle m'] show ?thesis by simp
  qed
  have app: "file_content (disk p) P
      = Some (prior_content (disk p0) P @ concat (map (\<lambda>i. payload (calls ! i)) order))"
    if a: "\<forall>c \<in> set calls. \<exists>path content. c = AppendCall path P content"
      and ok: "\<forall>pc \<in> set pcs. \<exists>r. pc = Finished r \<and> \<not> IsError r" and ne: "calls \<noteq> []"
  proof -
    have 1: "\<exists>path content. calls ! i = AppendCall path P content" if "i \<in> set order" for i
      using that s' a by simp
    have 2: "\<not> IsError (fst (locked_body (calls ! (order ! m))
                (in_turn calls (disk p0) (take m order))))" if m: "m < length order" for m
    proof -
      from m lo have mc: "m < length calls" by simp
      from m have "order ! m \<in> set order" by simp
      with s' len have "pcs ! (order ! m) \<in> set pcs" by simp
      with ok obtain r where "pcs ! (order ! m) = Finished r" "\<not> IsError r" by blast
      with res [OF mc] show ?thesis by simp
    qed
    from ne lo have "order \<noteq> []" by auto
    with appends_in_turn [of order calls P "disk p0", OF 1 2] disk
    show ?thesis by (auto simp: prior_content_def split: option.splits)
  qed
  from d s' disk res app show ?thesis by blast
qed

theorem concurrent_calls_in_turn_witness:
  "\<exists>p pcs order. runs two_appends (start example_process two_appends) (p, pcs)
     \<and> (\<forall>pc \<in> set pcs. \<exists>r. pc = Finished r \<and> \<not> IsError r)
     \<and> distinct order \<and> set order = {..<2}
     \<and> disk p = in_turn two_appends (disk example_process) order
     \<and> file_content (disk p) ''/w/log.txt''
         = Some (concat (map (\<lambda>i. payload (two_appends ! i)) order))
     \<and> file_content (disk p) ''/w/log.txt'' = Some ''B\<newline>A\<newline>''"
proof -
  from two_appends_run obtain p pcs
    where e: "exec two_appends b_first (start example_process two_appends) = Some (p, pcs)"
      and f: "pcs = [Finished (SilentResult ''Appended to log.txt''),
                     Finished (SilentResult ''Appended to log.txt'')]"
      and c: "file_content (disk p) ''/w/log.txt'' = Some ''B\<newline>A\<newline>''"
    by blast
  from exec_runs [OF e] have r: "runs two_appends (start example_process two_appends) (p, pcs)" .
  have same: "\<forall>c \<in> set two_appends. resolved c = ''/w/log.txt''"
    and app: "\<forall>c \<in> set two_appends. \<exists>path content. c = AppendCall path ''/w/log.txt'' content"
    and ne: "two_appends \<noteq> []" and len: "length two_appends = 2"
    by (simp_all add: two_appends_def)
  from f have fin: "\<forall>pc \<in> set pcs. finished pc \<noteq> None"
    and ok: "\<forall>pc \<in> set pcs. \<exists>r. pc = Finished r \<and> \<not> IsError r"
    by (simp_all add: SilentResult_def)
  have pr: "prior_content (disk example_process) ''/w/log.txt'' = []"
    by (simp add: prior_content_def file_content_def example_process_def example_disk_def)
  from concurrent_calls_in_turn [OF r same fin] app ok ne len pr
  obtain order where "distinct order" "set order = {..<2}"
    "disk p = in_turn two_appends (disk example_process) order"
    "file_content (disk p) ''/w/log.txt''
       = Some (concat (map (\<lambda>i. payload (two_appends ! i)) order))"
    by auto
  with r ok c show ?thesis by blast
qed

section \<open>Every caller returns\<close>

lemma rank_le: "rank pc \<le> 13"
proof (cases pc)
  case (Locking st)
  then show ?thesis by (cases st) simp_all
next
  case (Running b)
  then show ?thesis by (cases b) simp_all
next
  case (Unlocking st r)
  then show ?thesis by (cases st) simp_all
qed simp_all

lemma body_step_fits:
  "fits c b \<Longrightarrow> fits c (fst (body_step c b fs))"
  by (cases "(c, b, fs)" rule: body_step.cases)
     (auto simp: Let_def split: sum.splits prod.splits option.splits)

lemma body_step_rank:
  "fits c b \<Longrightarrow> \<forall>r. b \<noteq> Assigned r \<Longrightarrow> body_rank b < body_rank (fst (body_step c b fs))"
  by (cases "(c, b, fs)" rule: body_step.cases)
     (auto simp: Let_def split: sum.splits prod.splits option.splits)

lemma body_init_fits: "fits c (body_init c)"
  by (cases c) simp_all

lemma thread_step_rank:
  assumes "thread_step c pc p = Some (pc', p')" and "\<And>b. pc = Running b \<Longrightarrow> fits c b"
    and "\<And>m. pc' \<noteq> Crashed m"
  shows "rank pc < rank pc'"
  using assms(1)
proof (cases rule: thread_step_cases)
  case (io b)
  with body_step_rank [of c b "disk p"] assms(2) show ?thesis by simp
next
  case (acquire l)
  then show ?thesis by (cases c) simp_all
next
  case mu_lock
  with assms(1) show ?thesis by (auto split: if_splits)
next
  case (lookup l)
  with assms(1) show ?thesis by (auto split: prod.splits)
next
  case (mu_unlock l)
  with assms(1) show ?thesis by (auto split: if_splits)
next
  case (mu_crash l)
  with assms(1,3) show ?thesis by auto
next
  case (release_crash l r)
  with assms(1,3) show ?thesis by auto
qed simp_all


lemma on_track_start: "on_track calls (p\<lparr>globalFileLockManager := newFileLockManager\<rparr>)
    (replicate (length calls) (Locking Enter))"
  by (simp add: on_track_def newFileLockManager_def)

lemma on_track_thread_step:
  assumes inv: "lock_invariant calls p pcs" and tr: "on_track calls p pcs"
    and i: "i < length calls"
    and st: "thread_step (calls ! i) (pcs ! i) p = Some (pc', p')"
  shows "on_track calls p' (pcs[i := pc'])"
proof -
  let ?pcs = "pcs[i := pc']"
  from inv have len: "length pcs = length calls" by (simp add: lock_invariant_def)
  have nth: "?pcs ! j = (if j = i then pc' else pcs ! j)" if "j < length calls" for j
    using that len i by (simp add: nth_list_update)
  from inv have reg: "registry_ok p"
    and I_mu: "mu (globalFileLockManager p) \<longleftrightarrow> (\<exists>j<length calls. holds_mu (pcs ! j))"
    and I_hand: "\<And>j l. j < length calls \<Longrightarrow> in_hand (pcs ! j) = Some l
                  \<Longrightarrow> locks (globalFileLockManager p) (key p (calls ! j)) = Some l"
    and I_sect: "\<And>j. j < length calls \<Longrightarrow> in_section (pcs ! j)
                  \<Longrightarrow> \<exists>l. locks (globalFileLockManager p) (key p (calls ! j)) = Some l \<and> heap p l"
    unfolding lock_invariant_def by blast+
  from reg have below: "\<And>k l. locks (globalFileLockManager p) k = Some l \<Longrightarrow> l < brk p"
    and inj: "\<And>k k' l. locks (globalFileLockManager p) k = Some l
      \<Longrightarrow> locks (globalFileLockManager p) k' = Some l \<Longrightarrow> k = k'"
    unfolding registry_ok_def by blast+
  from tr have held: "\<And>k l. locks (globalFileLockManager p) k = Some l \<Longrightarrow> heap p l
      \<Longrightarrow> \<exists>j<length calls. in_section (pcs ! j) \<and> key p (calls ! j) = k"
    and fit: "\<And>j b. j < length calls \<Longrightarrow> pcs ! j = Running b \<Longrightarrow> fits (calls ! j) b"
    unfolding on_track_def by blast+
  have keep: "\<exists>j<length calls. in_section (?pcs ! j) \<and> key p (calls ! j) = k"
    if "locks (globalFileLockManager p) k = Some l" "heap p l"
      and "in_section (pcs ! i) \<Longrightarrow> in_section pc'" for k l
  proof -
    from held [OF that(1,2)] obtain j where j: "j < length calls" "in_section (pcs ! j)"
      "key p (calls ! j) = k" by blast
    with that(3) nth [OF j(1)] have "in_section (?pcs ! j)" by (cases "j = i") simp_all
    with j show ?thesis by blast
  qed
  have fit': "fits (calls ! j) b"
    if "j < length calls" "?pcs ! j = Running b"
      and "\<And>b. pc' = Running b \<Longrightarrow> fits (calls ! i) b" for j b
    using that nth [OF that(1)] fit [of j b] by (cases "j = i") simp_all
  have plain: "on_track calls p' ?pcs"
    if "locks (globalFileLockManager p') = locks (globalFileLockManager p)"
      and "heap p' = heap p" and "getwd p' = getwd p"
      and "in_section (pcs ! i) \<Longrightarrow> in_section pc'"
      and "\<And>b. pc' = Running b \<Longrightarrow> fits (calls ! i) b"
    unfolding on_track_def
  proof (intro conjI allI impI)
    fix k l assume "locks (globalFileLockManager p') k = Some l" "heap p' l"
    with that have "locks (globalFileLockManager p) k = Some l" "heap p l" by simp_all
    from keep [OF this that(4)] that(3)
    show "\<exists>j<length calls. in_section (?pcs ! j) \<and> key p' (calls ! j) = k" by (simp add: key_def)
  next
    fix j b assume "j < length calls" "?pcs ! j = Running b"
    from fit' [OF this that(5)] show "fits (calls ! j) b" .
  qed
  have not_running: "pc' \<noteq> Running b" if "holds_mu pc' \<or> in_hand pc' \<noteq> None" for b
    using that by auto
  from st show ?thesis
  proof (cases rule: thread_step_cases)
    case mu_lock
    with not_running show ?thesis by (intro plain) auto
  next
    case (lookup l)
    from lookup(2) show ?thesis
    proof (cases rule: lookup_or_create_cases)
      case old
      with lookup not_running show ?thesis by (intro plain) auto
    next
      case new
      have "\<exists>j<length calls. in_section (?pcs ! j) \<and> key p' (calls ! j) = k"
        if a: "locks (globalFileLockManager p') k = Some l'" and b: "heap p' l'" for k l'
      proof (cases "k = lock_key (getwd p) (resolved (calls ! i))")
        case True
        with a b new show ?thesis by simp
      next
        case False
        with a new have o: "locks (globalFileLockManager p) k = Some l'" by simp
        from below [OF o] b new have "heap p l'" by simp
        from keep [OF o this] lookup(5) new show ?thesis by (simp add: key_def)
      qed
      moreover have "fits (calls ! j) b" if "j < length calls" "?pcs ! j = Running b" for j b
      proof (rule fit' [OF that])
        fix b' assume "pc' = Running b'"
        with lookup(4) show "fits (calls ! i) b'" by simp
      qed
      ultimately show ?thesis unfolding on_track_def by blast
    qed
  next
    case (mu_unlock l)
    with not_running show ?thesis by (intro plain) auto
  next
    case (mu_crash l)
    then have "holds_mu (pcs ! i)" by auto
    with I_mu i mu_crash(2) show ?thesis by auto
  next
    case (acquire l)
    then have h: "in_hand (pcs ! i) = Some l" by simp
    note li = I_hand [OF i h]
    have "\<exists>j<length calls. in_section (?pcs ! j) \<and> key p' (calls ! j) = k"
      if a: "locks (globalFileLockManager p') k = Some l'" and b: "heap p' l'" for k l'
    proof (cases "l' = l")
      case True
      with a acquire li inj [of k l "key p (calls ! i)"] have "key p (calls ! i) = k" by simp
      with i nth [OF i] acquire show ?thesis by (auto simp: key_def)
    next
      case False
      with a b acquire have "locks (globalFileLockManager p) k = Some l'" "heap p l'" by simp_all
      from keep [OF this] acquire show ?thesis by (simp add: key_def)
    qed
    moreover have "fits (calls ! j) b" if "j < length calls" "?pcs ! j = Running b" for j b
    proof (rule fit' [OF that])
      fix b' assume "pc' = Running b'"
      with acquire(3) body_init_fits [of "calls ! i"] show "fits (calls ! i) b'" by simp
    qed
    ultimately show ?thesis unfolding on_track_def by blast
  next
    case (io b)
    from fit [OF i io(1)] have "fits (calls ! i) (fst (body_step (calls ! i) b (disk p)))"
      by (rule body_step_fits)
    with io show ?thesis by (intro plain) auto
  next
    case (return r)
    then show ?thesis by (intro plain) auto
  next
    case (release l r)
    then have h: "in_hand (pcs ! i) = Some l" by simp
    note li = I_hand [OF i h]
    have "\<exists>j<length calls. in_section (?pcs ! j) \<and> key p' (calls ! j) = k"
      if a: "locks (globalFileLockManager p') k = Some l'" and b: "heap p' l'" for k l'
    proof -
      from b release have ne: "l' \<noteq> l" and hp: "heap p l'" by (auto split: if_splits)
      from a release have o: "locks (globalFileLockManager p) k = Some l'" by simp
      from held [OF o hp] obtain j where j: "j < length calls" "in_section (pcs ! j)"
        "key p (calls ! j) = k" by blast
      have "j \<noteq> i"
      proof
        assume "j = i"
        with j(3) li o ne show False by simp
      qed
      with j nth [OF j(1)] release show ?thesis by (auto simp: key_def)
    qed
    moreover have "fits (calls ! j) b" if "j < length calls" "?pcs ! j = Running b" for j b
    proof (rule fit' [OF that])
      fix b' assume "pc' = Running b'"
      with release(3) show "fits (calls ! i) b'" by simp
    qed
    ultimately show ?thesis unfolding on_track_def by blast
  next
    case (release_crash l r)
    then have h: "in_hand (pcs ! i) = Some l" "in_section (pcs ! i)" by auto
    from I_hand [OF i h(1)] I_sect [OF i h(2)] release_crash(2) show ?thesis by auto
  qed
qed


lemma runs_on_track:
  assumes "runs calls (start p0 calls) (p, pcs)"
  shows "on_track calls p pcs"
proof -
  from assms have r: "(step calls)\<^sup>*\<^sup>* (p0\<lparr>globalFileLockManager := newFileLockManager\<rparr>,
      replicate (length calls) (Locking Enter)) (p, pcs)"
    by (simp add: runs_def start_def)
  then have "lock_invariant calls p pcs \<and> on_track calls p pcs"
  proof (induction rule: rtranclp_induct2)
    case refl
    show ?case using inv_start on_track_start by blast
  next
    case (step p1 pcs1 p2 pcs2)
    from step(2) obtain i pc' where i: "i < length calls"
      and st: "thread_step (calls ! i) (pcs1 ! i) p1 = Some (pc', p2)"
      and pcs2: "pcs2 = pcs1[i := pc']"
      by (cases rule: step.cases) simp
    from step(3) inv_thread_step [OF _ i st] on_track_thread_step [OF _ _ i st] pcs2
    show ?case by simp
  qed
  then show ?thesis by simp
qed

text \<open>Somebody can always take a step, unless everybody has returned.\<close>

lemma no_deadlock:
  assumes inv: "lock_invariant calls p pcs" and tr: "on_track calls p pcs"
    and i: "i < length calls" and nf: "finished (pcs ! i) = None"
  shows "\<exists>s'. step calls (p, pcs) s'"
proof -
  from inv have len: "length pcs = length calls" by (simp add: lock_invariant_def)
  from inv have
    I_mu: "mu (globalFileLockManager p) \<longleftrightarrow> (\<exists>j<length calls. holds_mu (pcs ! j))"
    and I_hand: "\<And>j l. j < length calls \<Longrightarrow> in_hand (pcs ! j) = Some l
                  \<Longrightarrow> locks (globalFileLockManager p) (key p (calls ! j)) = Some l"
    and I_crash: "\<And>j m. j < length calls \<Longrightarrow> pcs ! j \<noteq> Crashed m"
    unfolding lock_invariant_def by blast+
  from tr have held: "\<And>k l. locks (globalFileLockManager p) k = Some l \<Longrightarrow> heap p l
      \<Longrightarrow> \<exists>j<length calls. in_section (pcs ! j) \<and> key p (calls ! j) = k"
    unfolding on_track_def by blast
  have go: "\<exists>s'. step calls (p, pcs) s'"
    if "j < length calls" "thread_step (calls ! j) (pcs ! j) p = Some x" for j x
  proof -
    obtain pc' p' where "x = (pc', p')" by (cases x)
    with that len have "step calls (p, pcs) (p', pcs[j := pc'])"
      by (intro step.intros) simp_all
    then show ?thesis ..
  qed
  show ?thesis
  proof (cases "mu (globalFileLockManager p)")
    case True
    with I_mu obtain j where j: "j < length calls" "holds_mu (pcs ! j)" by blast
    from j(2) True have "\<exists>x. thread_step (calls ! j) (pcs ! j) p = Some x"
      by (cases "pcs ! j" rule: holds_mu.cases) (auto split: prod.splits)
    with go [OF j(1)] show ?thesis by blast
  next
    case False
    have sect: "\<exists>x. thread_step (calls ! j) (pcs ! j) p = Some x"
      if j: "j < length calls" and s: "in_section (pcs ! j)" for j
    proof (cases "pcs ! j")
      case (Running b)
      then show ?thesis by (cases b) (auto split: prod.splits)
    next
      case (Unlocking stg r)
      show ?thesis
      proof (cases stg)
        case Enter
        with Unlocking False show ?thesis by simp
      next
        case Inside
        with Unlocking have "holds_mu (pcs ! j)" by simp
        with I_mu j False show ?thesis by blast
      next
        case (Found l)
        with Unlocking have "holds_mu (pcs ! j)" by simp
        with I_mu j False show ?thesis by blast
      next
        case (Left l)
        with Unlocking show ?thesis by simp
      qed
    qed (use s in simp_all)
    show ?thesis
    proof (cases "pcs ! i")
      case (Locking stg)
      show ?thesis
      proof (cases stg)
        case Enter
        with Locking False go [OF i] show ?thesis by simp
      next
        case Inside
        with Locking have "holds_mu (pcs ! i)" by simp
        with I_mu i False show ?thesis by blast
      next
        case (Found l)
        with Locking have "holds_mu (pcs ! i)" by simp
        with I_mu i False show ?thesis by blast
      next
        case (Left l)
        show ?thesis
        proof (cases "heap p l")
          case True
          from Locking Left I_hand [OF i, of l]
          have "locks (globalFileLockManager p) (key p (calls ! i)) = Some l" by simp
          from held [OF this True] obtain j where "j < length calls" "in_section (pcs ! j)"
            by blast
          with sect go show ?thesis by blast
        next
          case nh: False
          with Locking Left go [OF i] show ?thesis by simp
        qed
      qed
    next
      case (Running b)
      with sect [OF i] go [OF i] show ?thesis by auto
    next
      case (Unlocking stg r)
      with sect [OF i] go [OF i] show ?thesis by auto
    next
      case (Finished r)
      with nf show ?thesis by simp
    next
      case (Crashed m)
      with I_crash [OF i, of m] show ?thesis by simp
    qed
  qed
qed

lemma spent_le: "spent pcs \<le> 13 * length pcs"
  unfolding spent_def by (induction pcs) (use rank_le in \<open>auto simp: add_le_mono\<close>)

lemma spent_update:
  assumes "i < length pcs" and "rank (pcs ! i) < rank pc'"
  shows "spent pcs < spent (pcs[i := pc'])"
  using assms unfolding spent_def
proof (induction pcs arbitrary: i)
  case Nil
  then show ?case by simp
next
  case (Cons a pcs)
  then show ?case by (cases i) auto
qed

lemma step_spent:
  assumes "step calls (p, pcs) (p', pcs')" and "lock_invariant calls p pcs"
    and "on_track calls p pcs"
  shows "spent pcs < spent pcs'"
proof -
  from assms(1) obtain i pc' where i: "i < length calls" "i < length pcs"
    and st: "thread_step (calls ! i) (pcs ! i) p = Some (pc', p')"
    and pcs': "pcs' = pcs[i := pc']"
    by (cases rule: step.cases) simp
  from inv_thread_step [OF assms(2) i(1) st] i have "\<forall>m. pc' \<noteq> Crashed m"
    by (auto simp: lock_invariant_def pcs' dest!: spec [of _ i])
  moreover from assms(3) i(1) have "\<And>b. pcs ! i = Running b \<Longrightarrow> fits (calls ! i) b"
    unfolding on_track_def by blast
  ultimately have "rank (pcs ! i) < rank pc'"
    using thread_step_rank [OF st] by blast
  from spent_update [OF i(2) this] pcs' show ?thesis by simp
qed

text \<open>From every state the callers can reach, they can all go on until each has returned.\<close>

lemma callers_can_finish:
  assumes "lock_invariant calls p pcs" and "on_track calls p pcs"
  shows "\<exists>p' pcs'. runs calls (p, pcs) (p', pcs') \<and> (\<forall>pc \<in> set pcs'. finished pc \<noteq> None)"
  using assms
proof (induction "13 * length pcs - spent pcs" arbitrary: p pcs rule: less_induct)
  case less
  from less.prems(1) have len: "length pcs = length calls" by (simp add: lock_invariant_def)
  show ?case
  proof (cases "\<forall>pc \<in> set pcs. finished pc \<noteq> None")
    case True
    then show ?thesis by (auto simp: runs_def)
  next
    case False
    then obtain i where i: "i < length calls" "finished (pcs ! i) = None"
      using len by (auto simp: in_set_conv_nth)
    from no_deadlock [OF less.prems i] obtain p1 pcs1 where s: "step calls (p, pcs) (p1, pcs1)"
      by (metis surj_pair)
    from s obtain j pc' where j: "j < length calls"
      and st: "thread_step (calls ! j) (pcs ! j) p = Some (pc', p1)"
      and pcs1: "pcs1 = pcs[j := pc']"
      by (cases rule: step.cases) simp
    have inv1: "lock_invariant calls p1 pcs1"
      unfolding pcs1 by (rule inv_thread_step [OF less.prems(1) j st])
    have tr1: "on_track calls p1 pcs1"
      unfolding pcs1 by (rule on_track_thread_step [OF less.prems j st])
    from step_spent [OF s less.prems] spent_le [of pcs1] pcs1
    have "13 * length pcs1 - spent pcs1 < 13 * length pcs - spent pcs" by simp
    from less.hyps [OF this inv1 tr1] obtain p' pcs'
      where "runs calls (p1, pcs1) (p', pcs')" "\<forall>pc \<in> set pcs'. finished pc \<noteq> None"
      by blast
    with s show ?thesis
      unfolding runs_def by (meson converse_rtranclp_into_rtranclp)
  qed
qed

text \<open>And they cannot go on for ever: a caller takes at most thirteen steps.\<close>

lemma steps_bounded:
  assumes "((step calls) ^^ n) (start p0 calls) (p, pcs)"
  shows "n \<le> 13 * length calls"
proof -
  have "lock_invariant calls p pcs \<and> on_track calls p pcs \<and> n \<le> spent pcs"
    using assms
  proof (induction n arbitrary: p pcs)
    case 0
    then show ?case using inv_start on_track_start by (auto simp: start_def)
  next
    case (Suc n)
    from Suc.prems obtain p1 pcs1
      where a: "((step calls) ^^ n) (start p0 calls) (p1, pcs1)"
        and s: "step calls (p1, pcs1) (p, pcs)"
      by auto
    from Suc.IH [OF a] have i1: "lock_invariant calls p1 pcs1" and t1: "on_track calls p1 pcs1"
      and n: "n \<le> spent pcs1" by simp_all
    from s obtain j pc' where j: "j < length calls"
      and st: "thread_step (calls ! j) (pcs1 ! j) p1 = Some (pc', p)"
      and pcs: "pcs = pcs1[j := pc']"
      by (cases rule: step.cases) simp
    from inv_thread_step [OF i1 j st] on_track_thread_step [OF i1 t1 j st] pcs
      step_spent [OF s i1 t1] n
    show ?case by simp
  qed
  moreover from this have "length pcs = length calls" by (simp add: lock_invariant_def)
  ultimately show ?thesis using spent_le [of pcs] by simp
qed

lemma runs_no_crash:
  assumes "runs calls (start p0 calls) (p, pcs)" and "pc \<in> set pcs"
  shows "pc \<noteq> Crashed msg"
proof -
  from runs_invariants(1) [OF assms(1)] have "length pcs = length calls"
    and "\<forall>i<length calls. \<forall>msg. pcs ! i \<noteq> Crashed msg"
    unfolding lock_invariant_def by blast+
  with assms(2) show ?thesis by (auto simp: in_set_conv_nth)
qed

text \<open>When every caller has returned, every registered lock is free again.\<close>

lemma all_returned_all_free:
  assumes "runs calls (start p0 calls) (p, pcs)" and "\<forall>pc \<in> set pcs. finished pc \<noteq> None"
    and "locks (globalFileLockManager p) k = Some l"
  shows "\<not> heap p l"
proof
  assume "heap p l"
  from runs_on_track [OF assms(1)] assms(3) this
  obtain i where i: "i < length calls" "in_section (pcs ! i)"
    unfolding on_track_def by blast
  from runs_invariants(1) [OF assms(1)] have "length pcs = length calls"
    by (simp add: lock_invariant_def)
  with i(1) assms(2) have "finished (pcs ! i) \<noteq> None" by simp
  with i(2) show False by (cases "pcs ! i") simp_all
qed

text \<open>
  C8. \<open>getLock\<close> and \<open>Lock\<close> have no failing outcome: neither ever ends in the
  runtime's fatal error, \<open>getLock\<close> returns a lock registered under the key of the path
  whenever \<open>flm.mu\<close> is free, and \<open>Lock\<close> returns whenever nobody holds the lock of the
  path. The key is the absolute path when \<open>filepath.Abs\<close> succeeds; when it fails, the
  key is the cleaned path, and that path is still relative. With callers that run at the
  same time, no state they can reach has a caller stopped by the fatal error, and from
  every such state the callers can go on until each of them has returned.
\<close>

theorem getLock_never_fails:
  "(\<forall>msg. getLock p path \<noteq> Fatal msg) \<and> (\<forall>msg. Lock p path \<noteq> Fatal msg)
   \<and> (\<not> mu (globalFileLockManager p) \<longrightarrow>
        (\<exists>lock p'. getLock p path = Done (lock, p')
           \<and> locks (globalFileLockManager p') (lock_key (getwd p) path) = Some lock))
   \<and> (lock_idle p path \<longrightarrow> (\<exists>p'. Lock p path = Done p'))
   \<and> (\<forall>absPath. filepath_Abs (getwd p) path = Inr absPath \<longrightarrow>
        lock_key (getwd p) path = absPath)
   \<and> (\<forall>err. filepath_Abs (getwd p) path = Inl err \<longrightarrow>
        lock_key (getwd p) path = filepath_Clean path
        \<and> \<not> filepath_IsAbs (filepath_Clean path))
   \<and> (\<forall>calls p0 q pcs. runs calls (start p0 calls) (q, pcs) \<longrightarrow>
        (\<forall>pc \<in> set pcs. \<forall>msg. pc \<noteq> Crashed msg)
        \<and> (\<exists>q' pcs'. runs calls (q, pcs) (q', pcs')
              \<and> (\<forall>pc \<in> set pcs'. finished pc \<noteq> None)))"
proof -
  have 1: "\<exists>lock p'. getLock p path = Done (lock, p')
      \<and> locks (globalFileLockManager p') (lock_key (getwd p) path) = Some lock"
    if "\<not> mu (globalFileLockManager p)"
  proof -
    obtain l p1 where lc: "lookup_or_create p (lock_key (getwd p) path) = (l, p1)"
      by (cases "lookup_or_create p (lock_key (getwd p) path)")
    from getLock_idle [OF that, of path] lc lookup_or_create_props(1) [OF lc]
    show ?thesis by simp
  qed
  have 2: "\<exists>p'. Lock p path = Done p'" if "lock_idle p path"
  proof -
    obtain l p1 where lc: "lookup_or_create p (lock_key (getwd p) path) = (l, p1)"
      by (cases "lookup_or_create p (lock_key (getwd p) path)")
    from Lock_idle [OF that lc] show ?thesis by blast
  qed
  have 3: "lock_key (getwd p) path = filepath_Clean path \<and> \<not> filepath_IsAbs (filepath_Clean path)"
    if "filepath_Abs (getwd p) path = Inl err" for err
  proof -
    from that have "\<not> filepath_IsAbs path"
      by (auto simp: filepath_Abs_def split: if_splits)
    from Clean_relative [OF this] that show ?thesis by (simp add: lock_key_def)
  qed
  have 4: "(\<forall>pc \<in> set pcs. \<forall>msg. pc \<noteq> Crashed msg)
      \<and> (\<exists>q' pcs'. runs calls (q, pcs) (q', pcs') \<and> (\<forall>pc \<in> set pcs'. finished pc \<noteq> None))"
    if r: "runs calls (start p0 calls) (q, pcs)" for calls p0 q pcs
    using runs_no_crash [OF r]
      callers_can_finish [OF runs_invariants(1) [OF r] runs_on_track [OF r]]
    by blast
  have 5: "\<forall>absPath. filepath_Abs (getwd p) path = Inr absPath \<longrightarrow>
      lock_key (getwd p) path = absPath"
    by (simp add: lock_key_def)
  from 1 2 3 4 5 getLock_not_Fatal [of p path] Lock_not_Fatal [of p path] show ?thesis
    by (intro conjI allI impI) blast+
qed

theorem getLock_never_fails_witness:
  "(\<exists>lock p'. getLock example_process ''a/../b.txt'' = Done (lock, p')
      \<and> locks (globalFileLockManager p') ''/w/b.txt'' = Some lock)
   \<and> (\<exists>p'. Lock example_process ''a/../b.txt'' = Done p')
   \<and> lock_key (getwd (example_process\<lparr>getwd := None\<rparr>)) ''a/../b.txt'' = ''b.txt''
   \<and> \<not> filepath_IsAbs ''b.txt''
   \<and> (\<exists>q pcs. runs two_appends (start example_process two_appends) (q, pcs)
         \<and> pcs = [Running AtOpenFile, Locking (Left 0)]
         \<and> (\<exists>q' pcs'. runs two_appends (q, pcs) (q', pcs')
               \<and> (\<forall>pc \<in> set pcs'. finished pc \<noteq> None)))"
proof -
  have m: "\<not> mu (globalFileLockManager example_process)"
    by (simp add: example_process_def newFileLockManager_def)
  have k: "lock_key (getwd example_process) ''a/../b.txt'' = ''/w/b.txt''"
    by (simp add: example_process_def lock_key_def filepath_Abs_def filepath_IsAbs_def
        filepath_Join_def filepath_Clean_def clean_step_def)
  have a: "filepath_Abs (getwd (example_process\<lparr>getwd := None\<rparr>)) ''a/../b.txt''
      = Inl ''getwd: no such file or directory''"
    by (simp add: filepath_Abs_def filepath_IsAbs_def)
  have c: "filepath_Clean ''a/../b.txt'' = ''b.txt''"
    by (simp add: filepath_Clean_def clean_step_def)
  have "\<exists>q pcs. exec two_appends [0, 0, 0, 0, 1, 1, 1] (start example_process two_appends)
        = Some (q, pcs) \<and> pcs = [Running AtOpenFile, Locking (Left 0)]"
    by (simp add: two_appends_def start_def example_process_def example_disk_def
        newFileLockManager_def set_mu_def lookup_or_create_def example_key)
  then obtain q pcs
    where e: "exec two_appends [0, 0, 0, 0, 1, 1, 1] (start example_process two_appends)
        = Some (q, pcs)" and f: "pcs = [Running AtOpenFile, Locking (Left 0)]"
    by blast
  note r = exec_runs [OF e]
  note t = getLock_never_fails [of example_process "''a/../b.txt''"]
  note u = getLock_never_fails [of "example_process\<lparr>getwd := None\<rparr>" "''a/../b.txt''"]
  from t m k have "\<exists>lock p'. getLock example_process ''a/../b.txt'' = Done (lock, p')
      \<and> locks (globalFileLockManager p') ''/w/b.txt'' = Some lock"
    by simp
  moreover from t example_idle have "\<exists>p'. Lock example_process ''a/../b.txt'' = Done p'"
    by blast
  moreover from u a c
  have "lock_key (getwd (example_process\<lparr>getwd := None\<rparr>)) ''a/../b.txt'' = ''b.txt''"
    "\<not> filepath_IsAbs ''b.txt''"
    by auto
  moreover from t r have "\<exists>q' pcs'. runs two_appends (q, pcs) (q', pcs')
      \<and> (\<forall>pc \<in> set pcs'. finished pc \<noteq> None)"
    by blast
  ultimately show ?thesis using r f by blast
qed

section \<open>The lock manager under concurrent callers\<close>

lemma thread_step_frame:
  assumes "thread_step c pc p = Some (pc', p')"
  shows "getwd p' = getwd p"
    and "locks (globalFileLockManager p) k = Some l \<Longrightarrow> locks (globalFileLockManager p') k = Some l"
  using assms
  by (cases rule: thread_step_cases; auto simp: lookup_or_create_frame)+

lemma runs_frame:
  assumes "runs calls (p, pcs) (p', pcs')"
  shows "getwd p' = getwd p"
    and "locks (globalFileLockManager p) k = Some l \<Longrightarrow> locks (globalFileLockManager p') k = Some l"
proof -
  from assms have r: "(step calls)\<^sup>*\<^sup>* (p, pcs) (p', pcs')" by (simp add: runs_def)
  then have "getwd p' = getwd p \<and>
      (locks (globalFileLockManager p) k = Some l \<longrightarrow> locks (globalFileLockManager p') k = Some l)"
  proof (induction rule: rtranclp_induct2)
    case refl
    show ?case by simp
  next
    case (step p1 pcs1 p2 pcs2)
    from step(2) obtain i pc' where "thread_step (calls ! i) (pcs1 ! i) p1 = Some (pc', p2)"
      by (cases rule: step.cases) simp
    from thread_step_frame [OF this] step(3) show ?case by simp
  qed
  then show "getwd p' = getwd p"
    and "locks (globalFileLockManager p) k = Some l \<Longrightarrow> locks (globalFileLockManager p') k = Some l"
    by simp_all
qed

lemma runs_trans: "runs calls s s' \<Longrightarrow> runs calls s' s'' \<Longrightarrow> runs calls s s''"
  by (simp add: runs_def)

lemma example_key_relative: "lock_key (Some ''/w'') ''./log.txt'' = ''/w/log.txt''"
  by (simp add: lock_key_def filepath_Abs_def filepath_IsAbs_def filepath_Join_def
      filepath_Clean_def clean_step_def)

lemma example_key_slashes: "lock_key (Some ''/w'') ''/w//log.txt'' = ''/w/log.txt''"
  by (simp add: lock_key_def filepath_Abs_def filepath_IsAbs_def filepath_Join_def
      filepath_Clean_def clean_step_def)

lemma example_places:
  "place ''/w'' ''./log.txt'' = place ''/w'' ''/w//log.txt''"
  "place ''/w'' ''a/../log.txt'' = place ''/w'' ''/w/log.txt''"
  "place ''/w'' ''../w/log.txt/'' = place ''/w'' ''log.txt''"
  by code_simp+

text \<open>
  C7. While callers run, the working directory stays what it was, an entry of the lock
  registry is never changed or removed, and two callers whose paths have the same key
  have the same lock in hand, whenever they got it. Below an absolute working directory,
  two spellings that lead to the same place have the same key, whether they are relative
  or absolute and whatever \<open>.\<close>, \<open>..\<close> and repeated or trailing separators they
  contain; in particular a relative path and the same path written out below the working
  directory have the same key. The key of a key is the key itself.
\<close>

theorem one_lock_per_file:
  assumes "runs calls (start p0 calls) (p, pcs)" and "runs calls (p, pcs) (p', pcs')"
  shows "getwd p' = getwd p0
     \<and> (\<forall>k l. locks (globalFileLockManager p) k = Some l \<longrightarrow>
           locks (globalFileLockManager p') k = Some l)
     \<and> (\<forall>i<length calls. \<forall>j<length calls. \<forall>l l'.
           in_hand (pcs ! i) = Some l \<longrightarrow> in_hand (pcs' ! j) = Some l' \<longrightarrow>
           lock_key (getwd p0) (resolved (calls ! i)) = lock_key (getwd p0) (resolved (calls ! j))
           \<longrightarrow> l = l')
     \<and> (\<forall>wd a b. getwd p0 = Some wd \<and> filepath_IsAbs wd \<and> place wd a = place wd b \<longrightarrow>
           lock_key (getwd p0) a = lock_key (getwd p0) b)
     \<and> (\<forall>wd rel. getwd p0 = Some wd \<and> filepath_IsAbs wd \<and> \<not> filepath_IsAbs rel \<longrightarrow>
           lock_key (getwd p0) rel = lock_key (getwd p0) (wd @ ''/'' @ rel))
     \<and> (\<forall>path. getwd p0 = None \<or> (\<exists>wd. getwd p0 = Some wd \<and> filepath_IsAbs wd) \<longrightarrow>
           lock_key (getwd p0) (lock_key (getwd p0) path) = lock_key (getwd p0) path)"
proof -
  from assms(1) have w0: "getwd p = getwd p0"
    using runs_frame(1) [of calls "fst (start p0 calls)" "snd (start p0 calls)" p pcs]
    by (simp add: start_def)
  from runs_frame(1) [OF assms(2)] w0 have w: "getwd p' = getwd p0" by simp
  note mono = runs_frame(2) [OF assms(2)]
  from runs_invariants(1) [OF assms(1)] have inv: "lock_invariant calls p pcs" .
  from runs_invariants(1) [OF runs_trans [OF assms]] have inv': "lock_invariant calls p' pcs'" .
  have same: "l = l'"
    if i: "i < length calls" and j: "j < length calls"
      and h: "in_hand (pcs ! i) = Some l" and h': "in_hand (pcs' ! j) = Some l'"
      and k: "lock_key (getwd p0) (resolved (calls ! i)) = lock_key (getwd p0) (resolved (calls ! j))"
    for i j l l'
  proof -
    from inv i h have "locks (globalFileLockManager p) (key p (calls ! i)) = Some l"
      unfolding lock_invariant_def by blast
    from mono [OF this] have "locks (globalFileLockManager p') (key p (calls ! i)) = Some l" .
    moreover from inv' j h' have "locks (globalFileLockManager p') (key p' (calls ! j)) = Some l'"
      unfolding lock_invariant_def by blast
    ultimately show ?thesis using k w w0 by (simp add: key_def)
  qed
  have 2: "\<forall>k l. locks (globalFileLockManager p) k = Some l \<longrightarrow>
      locks (globalFileLockManager p') k = Some l"
    using mono by blast
  have 3: "\<forall>i<length calls. \<forall>j<length calls. \<forall>l l'.
      in_hand (pcs ! i) = Some l \<longrightarrow> in_hand (pcs' ! j) = Some l' \<longrightarrow>
      lock_key (getwd p0) (resolved (calls ! i)) = lock_key (getwd p0) (resolved (calls ! j))
      \<longrightarrow> l = l'"
    using same by blast
  have 4: "\<forall>wd a b. getwd p0 = Some wd \<and> filepath_IsAbs wd \<and> place wd a = place wd b \<longrightarrow>
      lock_key (getwd p0) a = lock_key (getwd p0) b"
  proof (intro allI impI)
    fix wd a b
    assume "getwd p0 = Some wd \<and> filepath_IsAbs wd \<and> place wd a = place wd b"
    then have g: "getwd p0 = Some wd" and "filepath_IsAbs wd" and "place wd a = place wd b"
      by blast+
    from lock_key_same_place [OF this(2,3)] show "lock_key (getwd p0) a = lock_key (getwd p0) b"
      by (simp only: g)
  qed
  have 5: "\<forall>wd rel. getwd p0 = Some wd \<and> filepath_IsAbs wd \<and> \<not> filepath_IsAbs rel \<longrightarrow>
      lock_key (getwd p0) rel = lock_key (getwd p0) (wd @ ''/'' @ rel)"
    using lock_key_spellings by simp
  have 6: "\<forall>path. getwd p0 = None \<or> (\<exists>wd. getwd p0 = Some wd \<and> filepath_IsAbs wd) \<longrightarrow>
      lock_key (getwd p0) (lock_key (getwd p0) path) = lock_key (getwd p0) path"
    using lock_key_idempotent by simp
  show ?thesis by (intro conjI w 2 3 4 5 6)
qed

theorem one_lock_per_file_witness:
  "\<exists>p pcs p' pcs' l l'.
     runs two_spellings (start example_process two_spellings) (p, pcs)
     \<and> runs two_spellings (p, pcs) (p', pcs')
     \<and> resolved (two_spellings ! 0) = ''./log.txt''
     \<and> resolved (two_spellings ! 1) = ''/w//log.txt''
     \<and> in_hand (pcs ! 0) = Some l \<and> in_hand (pcs' ! 1) = Some l' \<and> l = l'
     \<and> locks (globalFileLockManager p') ''/w/log.txt'' = Some l
     \<and> place ''/w'' ''./log.txt'' = place ''/w'' ''/w//log.txt''
     \<and> lock_key (Some ''/w'') ''./log.txt'' = lock_key (Some ''/w'') ''/w//log.txt''
     \<and> place ''/w'' ''a/../log.txt'' = place ''/w'' ''/w/log.txt''
     \<and> lock_key (Some ''/w'') ''a/../log.txt'' = lock_key (Some ''/w'') ''/w/log.txt''
     \<and> lock_key (Some ''/w'') ''log.txt'' = lock_key (Some ''/w'') (''/w'' @ ''/'' @ ''log.txt'')
     \<and> lock_key (Some ''/w'') (lock_key (Some ''/w'') ''./log.txt'')
         = lock_key (Some ''/w'') ''./log.txt''"
proof -
  have "\<exists>p pcs. exec two_spellings [0, 0, 0] (start example_process two_spellings) = Some (p, pcs)
      \<and> in_hand (pcs ! 0) = Some 0 \<and> locks (globalFileLockManager p) ''/w/log.txt'' = Some 0
      \<and> (\<exists>p' pcs'. exec two_spellings [1, 1] (p, pcs) = Some (p', pcs')
            \<and> in_hand (pcs' ! 1) = Some 0)"
    by (simp add: two_spellings_def start_def example_process_def example_disk_def
        newFileLockManager_def set_mu_def lookup_or_create_def example_key_slashes
        example_key_relative)
  then obtain p pcs p' pcs'
    where e1: "exec two_spellings [0, 0, 0] (start example_process two_spellings) = Some (p, pcs)"
      and h1: "in_hand (pcs ! 0) = Some 0"
      and l1: "locks (globalFileLockManager p) ''/w/log.txt'' = Some 0"
      and e2: "exec two_spellings [1, 1] (p, pcs) = Some (p', pcs')"
      and h2: "in_hand (pcs' ! 1) = Some 0"
    by blast
  note r1 = exec_runs [OF e1] and r2 = exec_runs [OF e2]
  have w: "getwd example_process = Some ''/w''" "filepath_IsAbs ''/w''" "\<not> filepath_IsAbs ''log.txt''"
    by (simp_all add: example_process_def filepath_IsAbs_def)
  have c: "resolved (two_spellings ! 0) = ''./log.txt''"
    "resolved (two_spellings ! 1) = ''/w//log.txt''"
    by (simp_all add: two_spellings_def)
  note t = one_lock_per_file [OF r1 r2]
  note kept = t [THEN conjunct2, THEN conjunct1]
  note places = t [THEN conjunct2, THEN conjunct2, THEN conjunct2, THEN conjunct1, rule_format]
  note below = t [THEN conjunct2, THEN conjunct2, THEN conjunct2, THEN conjunct2,
      THEN conjunct1, rule_format]
  note again = t [THEN conjunct2, THEN conjunct2, THEN conjunct2, THEN conjunct2,
      THEN conjunct2, rule_format]
  from kept l1 have 1: "locks (globalFileLockManager p') ''/w/log.txt'' = Some 0"
    by blast
  from places [of "''/w''" "''./log.txt''" "''/w//log.txt''"] w(1,2) example_places(1)
  have 2: "lock_key (Some ''/w'') ''./log.txt'' = lock_key (Some ''/w'') ''/w//log.txt''"
    by simp
  from places [of "''/w''" "''a/../log.txt''" "''/w/log.txt''"] w(1,2) example_places(2)
  have 3: "lock_key (Some ''/w'') ''a/../log.txt'' = lock_key (Some ''/w'') ''/w/log.txt''"
    by simp
  from below [of "''/w''" "''log.txt''"] w
  have 4: "lock_key (Some ''/w'') ''log.txt'' = lock_key (Some ''/w'') (''/w'' @ ''/'' @ ''log.txt'')"
    by simp
  from again [of "''./log.txt''"] w(1,2)
  have 5: "lock_key (Some ''/w'') (lock_key (Some ''/w'') ''./log.txt'')
      = lock_key (Some ''/w'') ''./log.txt''"
    by simp
  have "runs two_spellings (start example_process two_spellings) (p, pcs)
     \<and> runs two_spellings (p, pcs) (p', pcs')
     \<and> resolved (two_spellings ! 0) = ''./log.txt''
     \<and> resolved (two_spellings ! 1) = ''/w//log.txt''
     \<and> in_hand (pcs ! 0) = Some 0 \<and> in_hand (pcs' ! 1) = Some 0 \<and> (0::nat) = 0
     \<and> locks (globalFileLockManager p') ''/w/log.txt'' = Some 0
     \<and> place ''/w'' ''./log.txt'' = place ''/w'' ''/w//log.txt''
     \<and> lock_key (Some ''/w'') ''./log.txt'' = lock_key (Some ''/w'') ''/w//log.txt''
     \<and> place ''/w'' ''a/../log.txt'' = place ''/w'' ''/w/log.txt''
     \<and> lock_key (Some ''/w'') ''a/../log.txt'' = lock_key (Some ''/w'') ''/w/log.txt''
     \<and> lock_key (Some ''/w'') ''log.txt'' = lock_key (Some ''/w'') (''/w'' @ ''/'' @ ''log.txt'')
     \<and> lock_key (Some ''/w'') (lock_key (Some ''/w'') ''./log.txt'')
         = lock_key (Some ''/w'') ''./log.txt''"
    by (intro conjI r1 r2 c h1 h2 1 2 3 4 5 example_places(1,2) refl)
  then show ?thesis by (intro exI)
qed

text \<open>
  C9. In every state the callers can reach, \<open>flm.mu\<close> is locked exactly when some
  caller is between \<open>flm.mu.Lock()\<close> and \<open>flm.mu.Unlock()\<close> of \<open>getLock\<close>, and at most
  one caller is. That caller can take its next step, which is the lookup or the unlock:
  it leaves the disk alone and does not lead to a system call. A caller that stands at a
  system call is not the one holding \<open>flm.mu\<close>, and the lock of its path is locked.
\<close>

theorem registry_lock_only_for_lookup:
  assumes "runs calls (start p0 calls) (p, pcs)"
  shows "(mu (globalFileLockManager p) \<longleftrightarrow> (\<exists>i<length calls. holds_mu (pcs ! i)))
     \<and> (\<forall>i<length calls. \<forall>j<length calls. holds_mu (pcs ! i) \<longrightarrow> holds_mu (pcs ! j) \<longrightarrow> i = j)
     \<and> (\<forall>i<length calls. holds_mu (pcs ! i) \<longrightarrow>
           (\<exists>pc' p'. thread_step (calls ! i) (pcs ! i) p = Some (pc', p')
              \<and> disk p' = disk p \<and> (\<forall>b. pc' \<noteq> Running b)))
     \<and> (\<forall>i<length calls. \<forall>b. pcs ! i = Running b \<longrightarrow>
           \<not> holds_mu (pcs ! i)
           \<and> (\<exists>lock. locks (globalFileLockManager p) (lock_key (getwd p) (resolved (calls ! i)))
                        = Some lock \<and> heap p lock))"
proof -
  from runs_invariants(1) [OF assms] have inv: "lock_invariant calls p pcs" .
  then have 1: "mu (globalFileLockManager p) \<longleftrightarrow> (\<exists>i<length calls. holds_mu (pcs ! i))"
    and 2: "\<forall>i<length calls. \<forall>j<length calls. holds_mu (pcs ! i) \<longrightarrow> holds_mu (pcs ! j) \<longrightarrow> i = j"
    and 4: "\<forall>i<length calls. in_section (pcs ! i) \<longrightarrow>
        (\<exists>l. locks (globalFileLockManager p) (key p (calls ! i)) = Some l \<and> heap p l)"
    unfolding lock_invariant_def by blast+
  have 3: "\<exists>pc' p'. thread_step (calls ! i) (pcs ! i) p = Some (pc', p')
      \<and> disk p' = disk p \<and> (\<forall>b. pc' \<noteq> Running b)"
    if i: "i < length calls" and h: "holds_mu (pcs ! i)" for i
  proof -
    from 1 i h have m: "mu (globalFileLockManager p)" by blast
    from h m show ?thesis
      by (cases "pcs ! i" rule: holds_mu.cases)
        (auto simp: lookup_or_create_def Let_def split: option.splits)
  qed
  have 5: "\<not> holds_mu (pcs ! i)
      \<and> (\<exists>lock. locks (globalFileLockManager p) (lock_key (getwd p) (resolved (calls ! i)))
                   = Some lock \<and> heap p lock)"
    if i: "i < length calls" and r: "pcs ! i = Running b" for i b
    using 4 i r by (auto simp: key_def)
  from 1 2 3 5 show ?thesis by blast
qed

theorem registry_lock_only_for_lookup_witness:
  "\<exists>p pcs. runs two_appends (start example_process two_appends) (p, pcs)
     \<and> pcs = [Running AtOpenFile, Locking Inside]
     \<and> mu (globalFileLockManager p)
     \<and> holds_mu (pcs ! 1) \<and> \<not> holds_mu (pcs ! 0)
     \<and> (\<exists>lock. locks (globalFileLockManager p) ''/w/log.txt'' = Some lock \<and> heap p lock)"
proof -
  have "\<exists>p pcs. exec two_appends [0, 0, 0, 0, 1] (start example_process two_appends) = Some (p, pcs)
      \<and> pcs = [Running AtOpenFile, Locking Inside] \<and> getwd p = Some ''/w''"
    by (simp add: two_appends_def start_def example_process_def example_disk_def
        newFileLockManager_def set_mu_def lookup_or_create_def example_key)
  then obtain p pcs
    where e: "exec two_appends [0, 0, 0, 0, 1] (start example_process two_appends) = Some (p, pcs)"
      and f: "pcs = [Running AtOpenFile, Locking Inside]" and w: "getwd p = Some ''/w''"
    by blast
  note r = exec_runs [OF e]
  have len: "length two_appends = 2" and c: "resolved (two_appends ! 0) = ''/w/log.txt''"
    by (simp_all add: two_appends_def)
  from registry_lock_only_for_lookup [OF r]
  have A: "mu (globalFileLockManager p) \<longleftrightarrow> (\<exists>i<length two_appends. holds_mu (pcs ! i))"
    and B: "\<forall>i<length two_appends. \<forall>b. pcs ! i = Running b \<longrightarrow>
           \<not> holds_mu (pcs ! i)
           \<and> (\<exists>lock. locks (globalFileLockManager p)
                          (lock_key (getwd p) (resolved (two_appends ! i))) = Some lock
                  \<and> heap p lock)"
    by blast+
  from f len have "1 < length two_appends" "holds_mu (pcs ! 1)" by simp_all
  with A have m: "mu (globalFileLockManager p)" by blast
  from f len have "0 < length two_appends" "pcs ! 0 = Running AtOpenFile" by simp_all
  with B have "\<exists>lock. locks (globalFileLockManager p)
      (lock_key (getwd p) (resolved (two_appends ! 0))) = Some lock \<and> heap p lock"
    by blast
  with w c example_key
  have "\<exists>lock. locks (globalFileLockManager p) ''/w/log.txt'' = Some lock \<and> heap p lock"
    by simp
  with r f m show ?thesis by auto
qed

end
